theory Spec2Isabelle
  imports Main "HOL-Library.AList"
begin

section \<open>Data model (types.ts)\<close>

text \<open>
  The status of a ticket is the string union \<^verbatim>\<open>'open' | 'in-progress' | 'closed'\<close>.
\<close>

datatype Status = Open | InProgress | Closed

text \<open>
  The interface \<^verbatim>\<open>Ticket\<close>.  The field \<^verbatim>\<open>id\<close> is called \<open>idT\<close> here, because
  \<open>id\<close> is the identity function of HOL.
\<close>

record Ticket =
  idT :: string
  title :: string
  description :: string
  projects :: "string list"
  blockedBy :: "string list"
  createdAt :: string
  updatedAt :: string
  status :: Status

text \<open>
  The interface \<^verbatim>\<open>TicketStorage\<close>.  The JavaScript object \<^verbatim>\<open>tickets\<close> is an association
  list in property order: assigning to a key that exists replaces the value in place,
  assigning to a new key appends, which is \<open>AList.update\<close>; \<^verbatim>\<open>delete\<close> is
  \<open>AList.delete\<close>; \<^verbatim>\<open>Object.values\<close> is \<open>map snd\<close>.  Ticket keys have the form
  \<^verbatim>\<open>TICKET-0001\<close>, so the special order of integer-like keys plays no role.  The list
  holds the own properties of the object; the properties that it inherits from
  \<^verbatim>\<open>Object.prototype\<close> are the subject of \<open>prototypeNames\<close> below.  The counter
  \<^verbatim>\<open>nextId\<close> is a double whose value is a natural number.
\<close>

record TicketStorage =
  version :: string
  tickets :: "(string \<times> Ticket) list"
  nextId :: nat

text \<open>
  The interface \<^verbatim>\<open>TicketUpdateData\<close> declares \<^verbatim>\<open>ticketId\<close> and the optional fields
  \<^verbatim>\<open>title\<close>, \<^verbatim>\<open>description\<close>, \<^verbatim>\<open>blockedBy\<close> and \<^verbatim>\<open>status\<close>.  Nothing enforces the
  declaration at run time: the request handler hands over the objects of the caller as
  they are, and \<^verbatim>\<open>updateTickets\<close> copies every own property of an update except
  \<^verbatim>\<open>ticketId\<close> into the ticket.  An update therefore has a field for every property of a
  ticket; an optional field is an \<open>option\<close>.  The model covers the updates whose
  properties are \<^verbatim>\<open>ticketId\<close> and properties of a ticket, with values of the ticket's
  types.
\<close>

record TicketUpdateData =
  ticketId :: string
  idU :: "string option"
  titleU :: "string option"
  descriptionU :: "string option"
  projectsU :: "string list option"
  blockedByU :: "string list option"
  createdAtU :: "string option"
  updatedAtU :: "string option"
  statusU :: "Status option"

text \<open>
  An object that has some of the properties of a ticket (\<^verbatim>\<open>Partial<Ticket>\<close>): the rest of
  an update once \<^verbatim>\<open>ticketId\<close> is taken out, and what \<^verbatim>\<open>updateTickets\<close> builds when the
  object that it spreads is no ticket.
\<close>

record PartialTicket =
  idP :: "string option"
  titleP :: "string option"
  descriptionP :: "string option"
  projectsP :: "string list option"
  blockedByP :: "string list option"
  createdAtP :: "string option"
  updatedAtP :: "string option"
  statusP :: "Status option"

text \<open>The interface \<^verbatim>\<open>TicketCreateData\<close>.\<close>

record TicketCreateData =
  titleC :: string
  descriptionC :: string
  projectsC :: "string list"
  blockedByC :: "string list option"

text \<open>The interface \<^verbatim>\<open>ResearchTreeNode\<close>.\<close>

datatype ResearchTreeNode =
  Node (node_id: string) (node_title: string) (unblocks: "ResearchTreeNode list")

text \<open>The interface \<^verbatim>\<open>NextTicket\<close>: a ticket without \<^verbatim>\<open>blockedBy\<close>, with a research tree.\<close>

record NextTicket =
  idN :: string
  titleN :: string
  descriptionN :: string
  projectsN :: "string list"
  createdAtN :: string
  updatedAtN :: string
  statusN :: Status
  researchTree :: "ResearchTreeNode list"

text \<open>
  Every \<^verbatim>\<open>McpError\<close> thrown by the ticket manager has the code \<^verbatim>\<open>InvalidParams\<close>; the
  constructors stand for the four messages:
  \<^verbatim>\<open>A ticket cannot depend on itself\<close>, \<^verbatim>\<open>Dependency ticket <id> does not exist\<close>,
  \<^verbatim>\<open>Circular dependency detected\<close> and \<^verbatim>\<open>Ticket <id> not found\<close>.
\<close>

datatype error =
    SelfDependency
  | MissingDependency string
  | CircularDependency
  | TicketNotFound string

section \<open>Dependency validation (ticket-manager.ts)\<close>

text \<open>
  \<^verbatim>\<open>storage.tickets[k]\<close> where it is read as a ticket: the own property \<open>k\<close>.  The object
  comes from \<^verbatim>\<open>JSON.parse\<close>, so for a name that is no own key the expression yields what
  \<^verbatim>\<open>Object.prototype\<close> holds under that name: a function, or for \<^verbatim>\<open>__proto__\<close> the
  prototype itself.  Such a value has neither \<^verbatim>\<open>blockedBy\<close> nor \<^verbatim>\<open>status\<close>, and a reader
  of these two properties sees what it sees for a missing ticket.
\<close>

definition lookup :: "TicketStorage \<Rightarrow> string \<Rightarrow> Ticket option" where
  "lookup storage k = map_of (tickets storage) k"

text \<open>The names of the properties of \<^verbatim>\<open>Object.prototype\<close>; the value of each is truthy.\<close>

definition prototypeNames :: "string list" where
  "prototypeNames =
     [''constructor'', ''__defineGetter__'', ''__defineSetter__'', ''hasOwnProperty'',
      ''__lookupGetter__'', ''__lookupSetter__'', ''isPrototypeOf'', ''propertyIsEnumerable'',
      ''toString'', ''valueOf'', ''__proto__'', ''toLocaleString'']"

text \<open>
  The existence test of the service, the truthiness of \<^verbatim>\<open>storage.tickets[k]\<close>: an own
  property holds a ticket, which is truthy, and an inherited one is truthy as well.
\<close>

definition hasTicket :: "TicketStorage \<Rightarrow> string \<Rightarrow> bool" where
  "hasTicket storage k =
     (case lookup storage k of Some ticket \<Rightarrow> True | None \<Rightarrow> k \<in> set prototypeNames)"

text \<open>
  \<^verbatim>\<open>validateDependencies(dependencies, storage, excludeId?)\<close>: the loop stops at the first
  entry that is the excluded id or fails the existence test.
\<close>

fun validateDependencies :: "string list \<Rightarrow> TicketStorage \<Rightarrow> string option \<Rightarrow> error + unit" where
  "validateDependencies [] storage excludeId = Inr ()"
| "validateDependencies (depId # dependencies) storage excludeId =
     (if Some depId = excludeId then Inl SelfDependency
      else if \<not> hasTicket storage depId then Inl (MissingDependency depId)
      else validateDependencies dependencies storage excludeId)"

text \<open>
  The edges that \<^verbatim>\<open>hasCycle\<close> follows from a node:
  \<^verbatim>\<open>id === ticketId ? blockedBy : (storage.tickets[id]?.blockedBy || [])\<close>.
\<close>

definition deps_of :: "string \<Rightarrow> string list \<Rightarrow> TicketStorage \<Rightarrow> string \<Rightarrow> string list" where
  "deps_of tid bb storage i =
     (if i = tid then bb
      else (case lookup storage i of Some t \<Rightarrow> blockedBy t | None \<Rightarrow> []))"

text \<open>
  The closure \<^verbatim>\<open>hasCycle\<close> of \<^verbatim>\<open>checkCircularDependency\<close>.  The two sets it shares with its
  recursive calls are passed and returned: the state is \<open>(visiting, visited)\<close>.  The
  \<^verbatim>\<open>for\<close> loop over the dependencies, which returns at the first cycle, is
  \<open>hasCycle_deps\<close>.
\<close>

function hasCycle :: "string \<Rightarrow> string list \<Rightarrow> TicketStorage \<Rightarrow> string
      \<Rightarrow> string set \<times> string set \<Rightarrow> bool \<times> (string set \<times> string set)"
  and hasCycle_deps :: "string \<Rightarrow> string list \<Rightarrow> TicketStorage \<Rightarrow> string list
      \<Rightarrow> string set \<times> string set \<Rightarrow> bool \<times> (string set \<times> string set)"
where
  "hasCycle tid bb storage i s =
     (if i \<in> fst s then (True, s)
      else if i \<in> snd s then (False, s)
      else (let r = hasCycle_deps tid bb storage (deps_of tid bb storage i)
                      (insert i (fst s), snd s)
            in if fst r then (True, snd r)
               else (False, (fst (snd r) - {i}, insert i (snd (snd r))))))"
| "hasCycle_deps tid bb storage [] s = (False, s)"
| "hasCycle_deps tid bb storage (d # ds) s =
     (let r = hasCycle tid bb storage d s
      in if fst r then (True, snd r)
         else hasCycle_deps tid bb storage ds (snd r))"
  by pat_completeness auto

text \<open>
  Termination.  Only the ticket being checked and the keys of the storage have outgoing
  edges; a call that gets past both tests marks a node, and a node without edges starts
  an empty loop.  The second call of the loop depends on the state that the first one
  returns, so that the marked nodes only grow is proved on the domain first.
\<close>

lemma finite_deps_nonempty: "finite {x. deps_of tid bb storage x \<noteq> []}"
proof -
  have "{x. deps_of tid bb storage x \<noteq> []} \<subseteq> insert tid (fst ` set (tickets storage))"
    by (auto simp: deps_of_def lookup_def map_of_eq_None_iff split: option.splits if_splits
             intro: rev_image_eqI dest!: map_of_SomeD)
  then show ?thesis by (rule finite_subset) simp
qed

lemma hasCycle_grows_partial:
  "hasCycle_hasCycle_deps_dom (Inl (tid, bb, storage, i, s)) \<Longrightarrow>
     fst s \<union> snd s \<subseteq> fst (snd (hasCycle tid bb storage i s)) \<union> snd (snd (hasCycle tid bb storage i s))"
  "hasCycle_hasCycle_deps_dom (Inr (tid, bb, storage, ds, s)) \<Longrightarrow>
     fst s \<union> snd s \<subseteq> fst (snd (hasCycle_deps tid bb storage ds s)) \<union> snd (snd (hasCycle_deps tid bb storage ds s))"
proof (induction rule: hasCycle_hasCycle_deps.pinduct)
  case (1 tid bb storage i s)
  then show ?case
    by (auto simp: hasCycle.psimps Let_def)
next
  case (2 tid bb storage s)
  then show ?case by (simp add: hasCycle_deps.psimps)
next
  case (3 tid bb storage d ds s)
  then show ?case
    by (auto simp: hasCycle_deps.psimps Let_def)
qed

definition dfs_measure :: "string \<Rightarrow> string list \<Rightarrow> TicketStorage \<Rightarrow> string set \<times> string set \<Rightarrow> nat" where
  "dfs_measure tid bb storage s = card ({x. deps_of tid bb storage x \<noteq> []} - (fst s \<union> snd s))"

termination hasCycle
proof (relation "inv_image (less_than <*lex*> less_than)
    (\<lambda>a. case a of
        Inl (tid, bb, storage, i, s) \<Rightarrow> (dfs_measure tid bb storage s, 1::nat)
      | Inr (tid, bb, storage, ds, s) \<Rightarrow>
          (dfs_measure tid bb storage s, if ds = [] then 0 else 2 + length ds))", goal_cases)
  case 1
  show ?case by (intro wf_inv_image wf_lex_prod wf_less_than)
next
  case (2 tid bb storage i s)
  show ?case
  proof (cases "deps_of tid bb storage i = []")
    case True
    have "dfs_measure tid bb storage (insert i (fst s), snd s) \<le> dfs_measure tid bb storage s"
      unfolding dfs_measure_def
      by (rule card_mono) (auto intro: finite_Diff finite_deps_nonempty)
    with True show ?thesis by auto
  next
    case False
    have "dfs_measure tid bb storage (insert i (fst s), snd s) < dfs_measure tid bb storage s"
      unfolding dfs_measure_def
      by (rule psubset_card_mono) (use 2 False in \<open>auto intro: finite_Diff finite_deps_nonempty\<close>)
    then show ?thesis by simp
  qed
next
  case (3 tid bb storage d ds s)
  then show ?case by simp
next
  case (4 tid bb storage d ds s x)
  have "dfs_measure tid bb storage (snd x) \<le> dfs_measure tid bb storage s"
    unfolding dfs_measure_def
    by (rule card_mono) (use 4 hasCycle_grows_partial(1)[OF 4(3)] in \<open>auto intro: finite_Diff finite_deps_nonempty\<close>)
  then show ?case by auto
qed

declare hasCycle.simps [simp del] hasCycle_deps.simps [simp del]

text \<open>\<^verbatim>\<open>checkCircularDependency(ticketId, blockedBy, storage)\<close>: both sets start empty.\<close>

definition checkCircularDependency :: "string \<Rightarrow> string list \<Rightarrow> TicketStorage \<Rightarrow> error + unit" where
  "checkCircularDependency tid bb storage =
     (if fst (hasCycle tid bb storage tid ({}, {})) then Inl CircularDependency
      else Inr ())"

text \<open>
  The graph that the check is specified on: the candidate's edges are the candidate list,
  every other stored ticket's edges are its stored \<^verbatim>\<open>blockedBy\<close>.
\<close>

definition dep_edges :: "string \<Rightarrow> string list \<Rightarrow> TicketStorage \<Rightarrow> (string \<times> string) set" where
  "dep_edges tid bb storage = {(a, b). b \<in> set (deps_of tid bb storage a)}"

definition cycle_reachable :: "(string \<times> string) set \<Rightarrow> string \<Rightarrow> bool" where
  "cycle_reachable E a = (\<exists>x. (a, x) \<in> E\<^sup>* \<and> (x, x) \<in> E\<^sup>+)"

section \<open>The ticket service (ticket-manager.ts)\<close>

text \<open>
  The data file holds one document, and every operation is a function from the document
  on disk to its result and the document on disk afterwards.  \<^verbatim>\<open>readData\<close> parses the
  file into a fresh object and \<^verbatim>\<open>writeData\<close> replaces the file; failures of the file
  system are not modelled.  An operation that throws before \<^verbatim>\<open>writeData\<close> leaves the disk
  as it was, whatever it did to the object in memory.
\<close>

definition readData :: "TicketStorage \<Rightarrow> TicketStorage" where
  "readData disk = disk"

definition writeData :: "TicketStorage \<Rightarrow> TicketStorage \<Rightarrow> TicketStorage" where
  "writeData data disk = data"

text \<open>
  The counter is a double.  A double holds every natural number below \<open>2 ^ 53\<close> and, above
  that, the numbers with 53 significant bits; \<open>toDouble\<close> is the double nearest to a
  natural number, a tie going to the even significand.  It is the result of an addition of
  doubles whose exact sum is that number.
\<close>

function bitLength :: "nat \<Rightarrow> nat" where
  "bitLength n = (if n = 0 then 0 else Suc (bitLength (n div 2)))"
  by pat_completeness auto
termination
  by (relation "measure (\<lambda>n. n)") auto

declare bitLength.simps [simp del]

definition toDouble :: "nat \<Rightarrow> nat" where
  "toDouble m =
     (let e = bitLength m - 53; q = m div 2 ^ e; r = m mod 2 ^ e
      in if 2 ^ e < 2 * r \<or> (2 * r = 2 ^ e \<and> odd q) then (q + 1) * 2 ^ e else q * 2 ^ e)"

text \<open>The decimal digits of a natural number.\<close>

function decimal :: "nat \<Rightarrow> string" where
  "decimal n =
     (if n < 10 then [''0123456789'' ! n]
      else decimal (n div 10) @ [''0123456789'' ! (n mod 10)])"
  by pat_completeness auto
termination
  by (relation "measure (\<lambda>n. n)") auto

declare decimal.simps [simp del]

text \<open>
  \<^verbatim>\<open>Number.prototype.toString\<close> on a double \<open>x\<close> whose value is a natural number.  The
  digits are those of the least number of digits \<open>k\<close> for which some \<open>s\<close> of \<open>k\<close> digits,
  followed by zeros up to \<open>n\<close> digits, is read back as \<open>x\<close>; of two such \<open>s\<close> the one nearer
  to \<open>x\<close> is taken, the even one if they are equally near.  Up to 21 digits the zeros are
  printed, beyond that the exponent is.  Below \<open>2 ^ 53\<close> the result is the decimal
  numeral of \<open>x\<close>.
\<close>

function shortestDigits :: "nat \<Rightarrow> nat \<Rightarrow> nat \<Rightarrow> nat" where
  "shortestDigits x n k =
     (if n \<le> k then x
      else if toDouble (x div 10 ^ (n - k) * 10 ^ (n - k)) = x
              \<and> x div 10 ^ (n - k) + 1 < 10 ^ k
              \<and> toDouble ((x div 10 ^ (n - k) + 1) * 10 ^ (n - k)) = x
      then (if x - x div 10 ^ (n - k) * 10 ^ (n - k) < (x div 10 ^ (n - k) + 1) * 10 ^ (n - k) - x
               \<or> (x - x div 10 ^ (n - k) * 10 ^ (n - k) = (x div 10 ^ (n - k) + 1) * 10 ^ (n - k) - x
                   \<and> even (x div 10 ^ (n - k)))
            then x div 10 ^ (n - k) else x div 10 ^ (n - k) + 1)
      else if toDouble (x div 10 ^ (n - k) * 10 ^ (n - k)) = x then x div 10 ^ (n - k)
      else if x div 10 ^ (n - k) + 1 < 10 ^ k
              \<and> toDouble ((x div 10 ^ (n - k) + 1) * 10 ^ (n - k)) = x
      then x div 10 ^ (n - k) + 1
      else shortestDigits x n (k + 1))"
  by pat_completeness auto
termination
  by (relation "measure (\<lambda>(x, n, k). n - k)") auto

declare shortestDigits.simps [simp del]

definition toString :: "nat \<Rightarrow> string" where
  "toString x =
     (if x = 0 then ''0''
      else
        (let n = length (decimal x);
             (s, m) = (if toDouble (10 ^ n) = x then (1, n + 1) else (shortestDigits x n 1, n));
             digits = decimal s
         in if m \<le> 21 then digits @ replicate (m - length digits) (CHR ''0'')
            else (if length digits = 1 then digits else hd digits # CHR ''.'' # tl digits)
                 @ ''e+'' @ decimal (m - 1)))"

definition padStart :: "nat \<Rightarrow> char \<Rightarrow> string \<Rightarrow> string" where
  "padStart n c s = replicate (n - length s) c @ s"

text \<open>
  \<^verbatim>\<open>generateId(storage)\<close> returns the id and the storage with the counter advanced;
  \<^verbatim>\<open>storage.nextId += 1\<close> is an addition of doubles.
\<close>

definition generateId :: "TicketStorage \<Rightarrow> string \<times> TicketStorage" where
  "generateId storage =
     (''TICKET-'' @ padStart 4 (CHR ''0'') (toString (nextId storage)),
      storage\<lparr>nextId := toDouble (nextId storage + 1)\<rparr>)"

text \<open>\<^verbatim>\<open>storage.tickets[id] = ticket\<close>\<close>

definition putTicket :: "string \<Rightarrow> Ticket \<Rightarrow> TicketStorage \<Rightarrow> TicketStorage" where
  "putTicket k t storage = storage\<lparr>tickets := AList.update k t (tickets storage)\<rparr>"

text \<open>
  \<^verbatim>\<open>createTicket(title, description, projects, blockedBy)\<close>; \<open>now\<close> is the value of
  \<^verbatim>\<open>new Date().toISOString()\<close>.
\<close>

definition createTicket :: "string \<Rightarrow> string \<Rightarrow> string \<Rightarrow> string list \<Rightarrow> string list
    \<Rightarrow> TicketStorage \<Rightarrow> (error + Ticket) \<times> TicketStorage" where
  "createTicket now ttl descr projs bb disk =
     (let storage = readData disk in
      case validateDependencies bb storage None of
        Inl e \<Rightarrow> (Inl e, disk)
      | Inr _ \<Rightarrow>
          (let (i, storage1) = generateId storage;
               ticket = \<lparr>idT = i, title = ttl, description = descr, projects = projs,
                         blockedBy = bb, createdAt = now, updatedAt = now, status = Open\<rparr>
           in case checkCircularDependency i bb storage1 of
                Inl e \<Rightarrow> (Inl e, disk)
              | Inr _ \<Rightarrow> (Inr ticket, writeData (putTicket i ticket storage1) disk)))"

text \<open>\<^verbatim>\<open>ticketData.blockedBy || []\<close>\<close>

definition blockedByOrEmpty :: "TicketCreateData \<Rightarrow> string list" where
  "blockedByOrEmpty ticketData = (case blockedByC ticketData of Some bb \<Rightarrow> bb | None \<Rightarrow> [])"

text \<open>First pass of \<^verbatim>\<open>createTickets\<close>: every item's dependencies exist in the storage.\<close>

fun createValidate :: "TicketCreateData list \<Rightarrow> TicketStorage \<Rightarrow> error + unit" where
  "createValidate [] storage = Inr ()"
| "createValidate (ticketData # rest) storage =
     (case validateDependencies (blockedByOrEmpty ticketData) storage None of
        Inl e \<Rightarrow> Inl e
      | Inr _ \<Rightarrow> createValidate rest storage)"

text \<open>
  Second pass of \<^verbatim>\<open>createTickets\<close>: each ticket is checked against the storage that
  already holds the tickets created before it in the batch.
\<close>

fun createLoop :: "string \<Rightarrow> TicketCreateData list \<Rightarrow> TicketStorage \<Rightarrow> Ticket list
    \<Rightarrow> error + (TicketStorage \<times> Ticket list)" where
  "createLoop now [] storage createdTickets = Inr (storage, createdTickets)"
| "createLoop now (ticketData # rest) storage createdTickets =
     (let bb = blockedByOrEmpty ticketData;
          (i, storage1) = generateId storage;
          ticket = \<lparr>idT = i, title = titleC ticketData, description = descriptionC ticketData,
                    projects = projectsC ticketData, blockedBy = bb,
                    createdAt = now, updatedAt = now, status = Open\<rparr>
      in case checkCircularDependency i bb storage1 of
           Inl e \<Rightarrow> Inl e
         | Inr _ \<Rightarrow> createLoop now rest (putTicket i ticket storage1) (createdTickets @ [ticket]))"

definition createTickets :: "string \<Rightarrow> TicketCreateData list \<Rightarrow> TicketStorage
    \<Rightarrow> (error + Ticket list) \<times> TicketStorage" where
  "createTickets now ticketsIn disk =
     (let storage = readData disk in
      case createValidate ticketsIn storage of
        Inl e \<Rightarrow> (Inl e, disk)
      | Inr _ \<Rightarrow>
          (case createLoop now ticketsIn storage [] of
             Inl e \<Rightarrow> (Inl e, disk)
           | Inr (storage', createdTickets) \<Rightarrow> (Inr createdTickets, writeData storage' disk)))"

text \<open>
  \<^verbatim>\<open>readTicket(ticketId)\<close> returns \<^verbatim>\<open>storage.tickets[ticketId]\<close> when it is truthy: the
  ticket under an own key, and for an inherited name a value of \<^verbatim>\<open>Object.prototype\<close>,
  which is no ticket (\<open>None\<close>).
\<close>

definition readTicket :: "string \<Rightarrow> TicketStorage \<Rightarrow> error + Ticket option" where
  "readTicket tid disk =
     (let storage = readData disk in
      if \<not> hasTicket storage tid then Inl (TicketNotFound tid)
      else Inr (lookup storage tid))"

text \<open>First phase of \<^verbatim>\<open>updateTickets\<close>: every update passes the existence test.\<close>

fun updateExist :: "TicketUpdateData list \<Rightarrow> TicketStorage \<Rightarrow> error + unit" where
  "updateExist [] storage = Inr ()"
| "updateExist (u # us) storage =
     (if \<not> hasTicket storage (ticketId u) then Inl (TicketNotFound (ticketId u))
      else updateExist us storage)"

text \<open>
  Second phase: the dependencies of every update that carries \<^verbatim>\<open>blockedBy\<close> are validated
  and checked for a cycle, each against the storage as it was read.
\<close>

fun updateValidate :: "TicketUpdateData list \<Rightarrow> TicketStorage \<Rightarrow> error + unit" where
  "updateValidate [] storage = Inr ()"
| "updateValidate (u # us) storage =
     (case blockedByU u of
        None \<Rightarrow> updateValidate us storage
      | Some bb \<Rightarrow>
          (case validateDependencies bb storage (Some (ticketId u)) of
             Inl e \<Rightarrow> Inl e
           | Inr _ \<Rightarrow>
               (case checkCircularDependency (ticketId u) bb storage of
                  Inl e \<Rightarrow> Inl e
                | Inr _ \<Rightarrow> updateValidate us storage)))"

text \<open>
  Spreading: \<^verbatim>\<open>{...ticket}\<close> of a ticket has all its properties; of a function, of
  \<^verbatim>\<open>Object.prototype\<close> or of \<^verbatim>\<open>undefined\<close> it has none.
\<close>

definition spreadTicket :: "Ticket \<Rightarrow> PartialTicket" where
  "spreadTicket ticket =
     \<lparr>idP = Some (idT ticket), titleP = Some (title ticket),
      descriptionP = Some (description ticket), projectsP = Some (projects ticket),
      blockedByP = Some (blockedBy ticket), createdAtP = Some (createdAt ticket),
      updatedAtP = Some (updatedAt ticket), statusP = Some (status ticket)\<rparr>"

definition emptyObject :: PartialTicket where
  "emptyObject =
     \<lparr>idP = None, titleP = None, descriptionP = None, projectsP = None,
      blockedByP = None, createdAtP = None, updatedAtP = None, statusP = None\<rparr>"

text \<open>\<^verbatim>\<open>const { ticketId, ...updateFields } = update\<close>\<close>

definition updateFields :: "TicketUpdateData \<Rightarrow> PartialTicket" where
  "updateFields u =
     \<lparr>idP = idU u, titleP = titleU u, descriptionP = descriptionU u, projectsP = projectsU u,
      blockedByP = blockedByU u, createdAtP = createdAtU u, updatedAtP = updatedAtU u,
      statusP = statusU u\<rparr>"

text \<open>A property of the later object of a spread replaces that of the earlier one.\<close>

definition orElse :: "'a option \<Rightarrow> 'a option \<Rightarrow> 'a option" where
  "orElse later earlier = (case later of Some x \<Rightarrow> Some x | None \<Rightarrow> earlier)"

text \<open>
  \<^verbatim>\<open>{...ticket, ...updateFields, updatedAt: now}\<close>: every property that the update
  carries replaces the ticket's, \<^verbatim>\<open>ticketId\<close> is not among them, and \<^verbatim>\<open>updatedAt\<close> is the
  time of the call even when the update carries one.
\<close>

definition mergeUpdate :: "string \<Rightarrow> PartialTicket \<Rightarrow> PartialTicket \<Rightarrow> PartialTicket" where
  "mergeUpdate now ticket carried =
     \<lparr>idP = orElse (idP carried) (idP ticket),
      titleP = orElse (titleP carried) (titleP ticket),
      descriptionP = orElse (descriptionP carried) (descriptionP ticket),
      projectsP = orElse (projectsP carried) (projectsP ticket),
      blockedByP = orElse (blockedByP carried) (blockedByP ticket),
      createdAtP = orElse (createdAtP carried) (createdAtP ticket),
      updatedAtP = Some now,
      statusP = orElse (statusP carried) (statusP ticket)\<rparr>"

text \<open>
  The object \<^verbatim>\<open>storage.tickets\<close> while the updates are applied: its own properties in
  order, and its prototype, which is \<^verbatim>\<open>Object.prototype\<close> (\<open>None\<close>) until an assignment
  to \<^verbatim>\<open>__proto__\<close> replaces it.
\<close>

record TicketsObject =
  ownTickets :: "(string \<times> PartialTicket) list"
  protoTicket :: "PartialTicket option"

definition ticketsObject :: "TicketStorage \<Rightarrow> TicketsObject" where
  "ticketsObject storage =
     \<lparr>ownTickets = map (\<lambda>(k, ticket). (k, spreadTicket ticket)) (tickets storage),
      protoTicket = None\<rparr>"

text \<open>
  \<^verbatim>\<open>{...storage.tickets[k]}\<close> for a \<open>k\<close> that has passed the first phase: the own property
  if there is one; for \<^verbatim>\<open>__proto__\<close> the prototype, whose accessor \<^verbatim>\<open>Object.prototype\<close>
  provides; for another inherited name a function of \<^verbatim>\<open>Object.prototype\<close>.  A prototype
  set by an earlier update has only properties of a ticket, so it hides none of the
  inherited names.
\<close>

definition spreadAt :: "TicketsObject \<Rightarrow> string \<Rightarrow> PartialTicket" where
  "spreadAt obj k =
     (case map_of (ownTickets obj) k of
        Some ticket \<Rightarrow> ticket
      | None \<Rightarrow>
          if k = ''__proto__''
          then (case protoTicket obj of Some ticket \<Rightarrow> ticket | None \<Rightarrow> emptyObject)
          else emptyObject)"

text \<open>
  \<^verbatim>\<open>storage.tickets[k] = updatedTicket\<close>: an own property is replaced in place; without
  one, the name \<^verbatim>\<open>__proto__\<close> reaches the setter of \<^verbatim>\<open>Object.prototype\<close>, which makes
  the value the prototype and adds no property; any other name becomes a new own
  property, the last one.
\<close>

definition assignAt :: "TicketsObject \<Rightarrow> string \<Rightarrow> PartialTicket \<Rightarrow> TicketsObject" where
  "assignAt obj k updatedTicket =
     (if map_of (ownTickets obj) k = None \<and> k = ''__proto__''
      then obj\<lparr>protoTicket := Some updatedTicket\<rparr>
      else obj\<lparr>ownTickets := AList.update k updatedTicket (ownTickets obj)\<rparr>)"

text \<open>
  Third phase: the updates are applied in order, each to the object that holds the
  updates before it.
\<close>

fun updateApply :: "string \<Rightarrow> TicketUpdateData list \<Rightarrow> TicketsObject \<Rightarrow> PartialTicket list
    \<Rightarrow> TicketsObject \<times> PartialTicket list" where
  "updateApply now [] obj updatedTickets = (obj, updatedTickets)"
| "updateApply now (u # us) obj updatedTickets =
     (let updatedTicket = mergeUpdate now (spreadAt obj (ticketId u)) (updateFields u)
      in updateApply now us (assignAt obj (ticketId u) updatedTicket)
           (updatedTickets @ [updatedTicket]))"

text \<open>
  What \<^verbatim>\<open>JSON.stringify\<close> writes are the own properties.  When each of them has every
  property of a ticket, the document on disk is a \<^verbatim>\<open>TicketStorage\<close> again; otherwise it is
  the version, the objects and the counter as they were written.
\<close>

definition asTicket :: "PartialTicket \<Rightarrow> Ticket option" where
  "asTicket p =
     (case idP p of None \<Rightarrow> None | Some i \<Rightarrow>
      case titleP p of None \<Rightarrow> None | Some ttl \<Rightarrow>
      case descriptionP p of None \<Rightarrow> None | Some descr \<Rightarrow>
      case projectsP p of None \<Rightarrow> None | Some projs \<Rightarrow>
      case blockedByP p of None \<Rightarrow> None | Some bb \<Rightarrow>
      case createdAtP p of None \<Rightarrow> None | Some created \<Rightarrow>
      case updatedAtP p of None \<Rightarrow> None | Some updated \<Rightarrow>
      case statusP p of None \<Rightarrow> None | Some st \<Rightarrow>
        Some \<lparr>idT = i, title = ttl, description = descr, projects = projs, blockedBy = bb,
              createdAt = created, updatedAt = updated, status = st\<rparr>)"

fun asTickets :: "(string \<times> PartialTicket) list \<Rightarrow> (string \<times> Ticket) list option" where
  "asTickets [] = Some []"
| "asTickets ((k, p) # rest) =
     (case asTicket p of
        None \<Rightarrow> None
      | Some ticket \<Rightarrow>
          (case asTickets rest of
             None \<Rightarrow> None
           | Some ts \<Rightarrow> Some ((k, ticket) # ts)))"

datatype document =
    Storage TicketStorage
  | Objects string "(string \<times> PartialTicket) list" nat

definition writeObjects :: "TicketStorage \<Rightarrow> TicketsObject \<Rightarrow> document" where
  "writeObjects storage obj =
     (case asTickets (ownTickets obj) of
        Some ts \<Rightarrow> Storage (storage\<lparr>tickets := ts\<rparr>)
      | None \<Rightarrow> Objects (version storage) (ownTickets obj) (nextId storage))"

text \<open>
  \<^verbatim>\<open>updateTickets(updates)\<close>; \<open>now\<close> is the value of \<^verbatim>\<open>new Date().toISOString()\<close>.  The
  result is the list of the objects built, and the document on disk afterwards.
\<close>

definition updateTickets :: "string \<Rightarrow> TicketUpdateData list \<Rightarrow> TicketStorage
    \<Rightarrow> (error + PartialTicket list) \<times> document" where
  "updateTickets now updates disk =
     (let storage = readData disk in
      case updateExist updates storage of
        Inl e \<Rightarrow> (Inl e, Storage disk)
      | Inr _ \<Rightarrow>
          (case updateValidate updates storage of
             Inl e \<Rightarrow> (Inl e, Storage disk)
           | Inr _ \<Rightarrow>
               (let (obj, updatedTickets) = updateApply now updates (ticketsObject storage) []
                in (Inr updatedTickets, writeObjects storage obj))))"

text \<open>
  \<^verbatim>\<open>deleteTicket(ticketId)\<close>.  The existence test lets an inherited name pass; then
  \<^verbatim>\<open>delete\<close> finds no own property and removes nothing, and the name is still taken
  out of every \<^verbatim>\<open>blockedBy\<close>.
\<close>

definition stripDependency :: "string \<Rightarrow> Ticket \<Rightarrow> Ticket" where
  "stripDependency tid ticket = ticket\<lparr>blockedBy := filter (\<lambda>dep. dep \<noteq> tid) (blockedBy ticket)\<rparr>"

definition deleteTicket :: "string \<Rightarrow> TicketStorage \<Rightarrow> (error + bool) \<times> TicketStorage" where
  "deleteTicket tid disk =
     (let storage = readData disk in
      if \<not> hasTicket storage tid then (Inl (TicketNotFound tid), disk)
      else
        (let stripped = map (\<lambda>(k, ticket). (k, stripDependency tid ticket)) (tickets storage)
         in (Inr True, writeData (storage\<lparr>tickets := AList.delete tid stripped\<rparr>) disk)))"

section \<open>Research tree and next tickets (ticket-manager.ts)\<close>

text \<open>
  \<^verbatim>\<open>buildResearchTree(ticketId, storage, visitedIds)\<close>.  Every recursive call gets its own
  copy of the set, taken while the current id is in it, so the set is an argument and
  nothing is returned of it.
\<close>

definition dependents :: "string \<Rightarrow> TicketStorage \<Rightarrow> Ticket list" where
  "dependents tid storage =
     filter (\<lambda>ticket. tid \<in> set (blockedBy ticket) \<and> status ticket \<noteq> Closed)
       (map snd (tickets storage))"

function buildResearchTree :: "string \<Rightarrow> TicketStorage \<Rightarrow> string set \<Rightarrow> ResearchTreeNode list" where
  "buildResearchTree tid storage visitedIds =
     (if tid \<in> visitedIds then []
      else map (\<lambda>dependent.
                  Node (idT dependent) (title dependent)
                    (buildResearchTree (idT dependent) storage (insert tid visitedIds)))
             (dependents tid storage))"
  by pat_completeness auto

text \<open>
  Termination: a call that recurses adds its id to the set, and every id it recurses on
  is the \<^verbatim>\<open>id\<close> field of a stored ticket.
\<close>

definition ticketIds :: "TicketStorage \<Rightarrow> string set" where
  "ticketIds storage = idT ` snd ` set (tickets storage)"

lemma finite_ticketIds: "finite (ticketIds storage)"
  by (simp add: ticketIds_def)

lemma dependents_ticketIds: "d \<in> set (dependents tid storage) \<Longrightarrow> idT d \<in> ticketIds storage"
  by (auto simp: dependents_def ticketIds_def)

termination buildResearchTree
proof (relation "measure (\<lambda>(tid, storage, visitedIds). card (insert tid (ticketIds storage) - visitedIds))",
    goal_cases)
  case 1
  show ?case by simp
next
  case (2 tid storage visitedIds dependent)
  then have d: "idT dependent \<in> ticketIds storage" by (simp add: dependents_ticketIds)
  have "insert (idT dependent) (ticketIds storage) - insert tid visitedIds
          \<subset> insert tid (ticketIds storage) - visitedIds"
    using 2(1) d by auto
  then have "card (insert (idT dependent) (ticketIds storage) - insert tid visitedIds)
          < card (insert tid (ticketIds storage) - visitedIds)"
    by (intro psubset_card_mono) (simp_all add: finite_ticketIds)
  then show ?case by simp
qed

declare buildResearchTree.simps [simp del]

text \<open>The filter of \<^verbatim>\<open>nextTickets\<close>: not closed, and every dependency is a closed ticket.\<close>

definition isReady :: "TicketStorage \<Rightarrow> Ticket \<Rightarrow> bool" where
  "isReady storage ticket =
     (if status ticket = Closed then False
      else if length (blockedBy ticket) = 0 then True
      else list_all (\<lambda>depId. case lookup storage depId of
                                None \<Rightarrow> False
                              | Some depTicket \<Rightarrow> status depTicket = Closed)
             (blockedBy ticket))"

text \<open>
  \<^verbatim>\<open>String.prototype.toLowerCase\<close> on ASCII letters, and the project filter
  \<^verbatim>\<open>ticket.projects.some(p => p.toLowerCase() === project.toLowerCase())\<close>.  A typed ticket
  always has \<^verbatim>\<open>projects\<close>, so the branch for the old \<^verbatim>\<open>projectId\<close> is not taken.
\<close>

definition toLowerCase :: "string \<Rightarrow> string" where
  "toLowerCase s =
     map (\<lambda>c. let n = (of_char c :: nat) in if 65 \<le> n \<and> n \<le> 90 then char_of (n + 32) else c) s"

definition inProject :: "string \<Rightarrow> Ticket \<Rightarrow> bool" where
  "inProject project ticket = list_ex (\<lambda>p. toLowerCase p = toLowerCase project) (projects ticket)"

text \<open>
  The tickets that \<^verbatim>\<open>nextTickets(project)\<close> selects, in the order of the result.  An
  absent or empty \<^verbatim>\<open>project\<close> does not filter.  \<open>getTime\<close> is
  \<^verbatim>\<open>new Date(s).getTime()\<close>; \<^verbatim>\<open>Array.prototype.sort\<close> is stable, as \<open>sort_key\<close> is.
\<close>

definition nextSelected :: "(string \<Rightarrow> int) \<Rightarrow> string option \<Rightarrow> TicketStorage \<Rightarrow> Ticket list" where
  "nextSelected getTime project storage =
     (let ts = filter (isReady storage) (map snd (tickets storage));
          ts' = (case project of
                   None \<Rightarrow> ts
                 | Some p \<Rightarrow> if p = [] then ts else filter (inProject p) ts)
      in sort_key (\<lambda>ticket. - getTime (createdAt ticket)) ts')"

definition toNextTicket :: "TicketStorage \<Rightarrow> Ticket \<Rightarrow> NextTicket" where
  "toNextTicket storage ticket =
     \<lparr>idN = idT ticket, titleN = title ticket, descriptionN = description ticket,
      projectsN = projects ticket, createdAtN = createdAt ticket,
      updatedAtN = updatedAt ticket, statusN = status ticket,
      researchTree = buildResearchTree (idT ticket) storage {}\<rparr>"

definition nextTickets :: "(string \<Rightarrow> int) \<Rightarrow> string option \<Rightarrow> TicketStorage \<Rightarrow> NextTicket list" where
  "nextTickets getTime project disk =
     (let storage = readData disk
      in map (toNextTicket storage) (nextSelected getTime project storage))"

section \<open>The migration manager (migrations/index.ts)\<close>

text \<open>
  The file system maps a path to the text of the file.  \<^verbatim>\<open>JSON.parse\<close> and
  \<^verbatim>\<open>JSON.stringify\<close> are parameters of the functions that call them; a parse that throws
  is \<open>None\<close>.  A parsed value of type \<^verbatim>\<open>any\<close> is a \<open>json\<close>; the fields of an object are
  listed in property order.
\<close>

type_synonym fs = "string \<rightharpoonup> string"

datatype json =
    JNull
  | JBool bool
  | JNum int
  | JStr string
  | JArr "json list"
  | JObj "(string \<times> json) list"

text \<open>
  A migration step either returns or throws, and has changed the file system by then.
  \<^verbatim>\<open>runMigrationIfNeeded\<close> either returns or ends the process with \<^verbatim>\<open>process.exit(1)\<close>.
\<close>

datatype completion = Done | Thrown

datatype run_result = Returned | Exited

text \<open>The interface \<^verbatim>\<open>MigrationPath\<close>.\<close>

record MigrationPath =
  fromVersion :: string
  toVersion :: string
  migrationFile :: string
  migrate :: "string \<Rightarrow> fs \<Rightarrow> completion \<times> fs"

text \<open>
  The inner loop of \<^verbatim>\<open>findMigrationPath\<close>: every possible migration whose target is not
  visited yet marks it and is pushed, with the path extended, at the end of the queue.
\<close>

fun enqueue :: "MigrationPath list \<Rightarrow> MigrationPath list
    \<Rightarrow> (string \<times> MigrationPath list) list \<times> string set
    \<Rightarrow> (string \<times> MigrationPath list) list \<times> string set" where
  "enqueue [] path (queue, visited) = (queue, visited)"
| "enqueue (migration # rest) path (queue, visited) =
     (if toVersion migration \<notin> visited
      then enqueue rest path
             (queue @ [(toVersion migration, path @ [migration])], insert (toVersion migration) visited)
      else enqueue rest path (queue, visited))"

lemma enqueue_visited:
  "enqueue ms path (queue, visited) = (queue', visited') \<Longrightarrow>
     visited \<subseteq> visited' \<and> visited' \<subseteq> visited \<union> toVersion ` set ms"
  by (induction ms arbitrary: queue visited) (auto split: if_splits)

lemma enqueue_same_visited:
  "enqueue ms path (queue, visited) = (queue', visited') \<Longrightarrow> visited' = visited \<Longrightarrow> queue' = queue"
proof (induction ms arbitrary: queue visited)
  case Nil
  then show ?case by simp
next
  case (Cons m ms)
  show ?case
  proof (cases "toVersion m \<in> visited")
    case True
    with Cons show ?thesis by simp
  next
    case False
    with Cons.prems(1) have "insert (toVersion m) visited \<subseteq> visited'"
      using enqueue_visited by fastforce
    with False Cons.prems(2) show ?thesis by auto
  qed
qed

text \<open>The \<^verbatim>\<open>while\<close> loop of \<^verbatim>\<open>findMigrationPath\<close>; \<^verbatim>\<open>queue.shift()\<close> takes the head.\<close>

function bfs :: "MigrationPath list \<Rightarrow> string \<Rightarrow> (string \<times> MigrationPath list) list
    \<Rightarrow> string set \<Rightarrow> MigrationPath list" where
  "bfs availableMigrations toV [] visited = []"
| "bfs availableMigrations toV ((currentVersion, path) # queue) visited =
     (if currentVersion = toV then path
      else
        (let possibleMigrations =
               filter (\<lambda>migration. fromVersion migration = currentVersion) availableMigrations;
             (queue', visited') = enqueue possibleMigrations path (queue, visited)
         in bfs availableMigrations toV queue' visited'))"
  by pat_completeness auto

termination
proof (relation "inv_image (less_than <*lex*> less_than)
    (\<lambda>(availableMigrations, toV, queue, visited).
        (card (toVersion ` set availableMigrations - visited), length queue))", goal_cases)
  case 1
  show ?case by (intro wf_inv_image wf_lex_prod wf_less_than)
next
  case (2 availableMigrations toV currentVersion path queue visited possibleMigrations qv queue' visited')
  then have e: "enqueue (filter (\<lambda>migration. fromVersion migration = currentVersion) availableMigrations)
                  path (queue, visited) = (queue', visited')"
    by simp
  from enqueue_visited[OF e]
  have sub: "visited \<subseteq> visited'" "visited' \<subseteq> visited \<union> toVersion ` set availableMigrations"
    by auto
  show ?case
  proof (cases "visited' = visited")
    case True
    with enqueue_same_visited[OF e] show ?thesis by simp
  next
    case False
    with sub have "toVersion ` set availableMigrations - visited'
        \<subset> toVersion ` set availableMigrations - visited"
      by blast
    then have "card (toVersion ` set availableMigrations - visited')
        < card (toVersion ` set availableMigrations - visited)"
      by (intro psubset_card_mono) simp_all
    then show ?thesis by simp
  qed
qed

declare bfs.simps [simp del]

definition findMigrationPath :: "MigrationPath list \<Rightarrow> string \<Rightarrow> string \<Rightarrow> MigrationPath list" where
  "findMigrationPath availableMigrations fromV toV =
     bfs availableMigrations toV [(fromV, [])] {fromV}"

text \<open>
  \<^verbatim>\<open>detectDataVersion(rawData)\<close>.  \<open>None\<close> is a \<^verbatim>\<open>TypeError\<close>: a property read on
  \<^verbatim>\<open>null\<close>, or the operator \<^verbatim>\<open>in\<close> on a value that is not an object.
\<close>

fun truthy :: "json \<Rightarrow> bool" where
  "truthy JNull = False"
| "truthy (JBool b) = b"
| "truthy (JNum n) = (n \<noteq> 0)"
| "truthy (JStr s) = (s \<noteq> [])"
| "truthy (JArr xs) = True"
| "truthy (JObj kvs) = True"

text \<open>
  A property that is neither an index nor \<^verbatim>\<open>length\<close>, read from a value that is not
  \<^verbatim>\<open>null\<close>; \<open>None\<close> is \<^verbatim>\<open>undefined\<close>.
\<close>

fun getProp :: "json \<Rightarrow> string \<Rightarrow> json option" where
  "getProp (JObj kvs) k = map_of kvs k"
| "getProp j k = None"

fun isArray :: "json option \<Rightarrow> bool" where
  "isArray (Some (JArr xs)) = True"
| "isArray j = False"

text \<open>\<^verbatim>\<open>x && typeof x === 'object'\<close>\<close>

fun isObject :: "json option \<Rightarrow> bool" where
  "isObject (Some (JArr xs)) = True"
| "isObject (Some (JObj kvs)) = True"
| "isObject j = False"

text \<open>\<^verbatim>\<open>Object.values(x)[0]\<close> for an \<open>x\<close> that passed the test above.\<close>

fun firstValue :: "json option \<Rightarrow> json option" where
  "firstValue (Some (JObj ((k, v) # kvs))) = Some v"
| "firstValue (Some (JArr (x # xs))) = Some x"
| "firstValue j = None"

text \<open>
  The tests on the first ticket, which is truthy: an array has neither field, and any
  other value that is not an object makes \<^verbatim>\<open>in\<close> throw.  The inner \<open>None\<close> says that
  neither test recognised the ticket.
\<close>

fun sniffTicket :: "json \<Rightarrow> string option option" where
  "sniffTicket (JObj kvs) =
     (if map_of kvs ''dependencies'' \<noteq> None \<and> isArray (map_of kvs ''dependencies'')
        then Some (Some ''0.1.0'')
      else if map_of kvs ''blockedBy'' \<noteq> None \<and> isArray (map_of kvs ''blockedBy'')
        then Some (Some ''0.2.0'')
      else Some None)"
| "sniffTicket (JArr xs) = Some None"
| "sniffTicket j = None"

definition detectDataVersion :: "json \<Rightarrow> json option" where
  "detectDataVersion rawData =
     (if rawData = JNull then None
      else if (case getProp rawData ''version'' of Some v \<Rightarrow> truthy v | None \<Rightarrow> False)
        then getProp rawData ''version''
      else if isObject (getProp rawData ''tickets'') then
        (case firstValue (getProp rawData ''tickets'') of
           None \<Rightarrow> Some (JStr ''0.1.0'')
         | Some firstTicket \<Rightarrow>
             if truthy firstTicket then
               (case sniffTicket firstTicket of
                  None \<Rightarrow> None
                | Some (Some v) \<Rightarrow> Some (JStr v)
                | Some None \<Rightarrow> Some (JStr ''0.1.0''))
             else Some (JStr ''0.1.0''))
      else Some (JStr ''0.1.0''))"

text \<open>\<^verbatim>\<open>readRawData()\<close>; \<open>None\<close> when the file is missing or is not JSON.\<close>

definition readRawData :: "(string \<Rightarrow> json option) \<Rightarrow> string \<Rightarrow> fs \<Rightarrow> json option" where
  "readRawData parse dataFile files =
     (case files dataFile of None \<Rightarrow> None | Some text \<Rightarrow> parse text)"

text \<open>The loop of \<^verbatim>\<open>runMigrationIfNeeded\<close> that executes the steps of the path in order.\<close>

fun executeSteps :: "MigrationPath list \<Rightarrow> string \<Rightarrow> fs \<Rightarrow> run_result \<times> fs" where
  "executeSteps [] dataFile files = (Returned, files)"
| "executeSteps (step # steps) dataFile files =
     (case migrate step dataFile files of
        (Thrown, files') \<Rightarrow> (Exited, files')
      | (Done, files') \<Rightarrow> executeSteps steps dataFile files')"

definition currentAppVersion :: string where
  "currentAppVersion = ''0.2.0''"

text \<open>
  \<^verbatim>\<open>runMigrationIfNeeded()\<close>, after \<^verbatim>\<open>discoverMigrations\<close> has filled
  \<open>availableMigrations\<close>.  Every error is caught and ends the process.  A detected version
  that is no string starts at a node without migrations, so no path is found.
\<close>

definition runMigrationIfNeeded :: "(string \<Rightarrow> json option) \<Rightarrow> MigrationPath list \<Rightarrow> string
    \<Rightarrow> fs \<Rightarrow> run_result \<times> fs" where
  "runMigrationIfNeeded parse availableMigrations dataFile files =
     (case readRawData parse dataFile files of
        None \<Rightarrow> (Exited, files)
      | Some rawData \<Rightarrow>
          (case detectDataVersion rawData of
             None \<Rightarrow> (Exited, files)
           | Some currentDataVersion \<Rightarrow>
               if currentDataVersion = JStr currentAppVersion then (Returned, files)
               else
                 (case currentDataVersion of
                    JStr v \<Rightarrow>
                      (let migrationPath = findMigrationPath availableMigrations v currentAppVersion
                       in if length migrationPath = 0 then (Exited, files)
                          else executeSteps migrationPath dataFile files)
                  | _ \<Rightarrow> (Exited, files))))"

section \<open>The migration from 0.1.0 to 0.2.0 (the module that exports \<^verbatim>\<open>migration\<close>)\<close>

text \<open>The legacy interfaces, in which \<^verbatim>\<open>blockedBy\<close> is called \<^verbatim>\<open>dependencies\<close>.\<close>

record LegacyTicket_v0_1_0 =
  idL :: string
  titleL :: string
  descriptionL :: string
  projectsL :: "string list"
  dependencies :: "string list"
  createdAtL :: string
  updatedAtL :: string
  statusL :: Status

record LegacyTicketStorage_v0_1_0 =
  ticketsL :: "(string \<times> LegacyTicket_v0_1_0) list"
  nextIdL :: nat

text \<open>
  \<^verbatim>\<open>{...legacyTicket, blockedBy: legacyTicket.dependencies}\<close> without the field
  \<^verbatim>\<open>dependencies\<close>.
\<close>

definition renameDependencies :: "LegacyTicket_v0_1_0 \<Rightarrow> Ticket" where
  "renameDependencies legacyTicket =
     \<lparr>idT = idL legacyTicket, title = titleL legacyTicket,
      description = descriptionL legacyTicket, projects = projectsL legacyTicket,
      blockedBy = dependencies legacyTicket, createdAt = createdAtL legacyTicket,
      updatedAt = updatedAtL legacyTicket, status = statusL legacyTicket\<rparr>"

text \<open>The conversion of the document: the loop over \<^verbatim>\<open>Object.entries(legacyData.tickets)\<close>.\<close>

definition convertStorage :: "LegacyTicketStorage_v0_1_0 \<Rightarrow> TicketStorage" where
  "convertStorage legacyData =
     \<lparr>version = ''0.2.0'',
      tickets = foldl (\<lambda>newTickets (i, legacyTicket).
                         AList.update i (renameDependencies legacyTicket) newTickets)
                  [] (ticketsL legacyData),
      nextId = nextIdL legacyData\<rparr>"

text \<open>\<^verbatim>\<open>String.prototype.replace\<close> with a string pattern replaces the first occurrence.\<close>

fun replaceFirst :: "string \<Rightarrow> string \<Rightarrow> string \<Rightarrow> string" where
  "replaceFirst pat rep [] = (if pat = [] then rep else [])"
| "replaceFirst pat rep (c # cs) =
     (if take (length pat) (c # cs) = pat then rep @ drop (length pat) (c # cs)
      else c # replaceFirst pat rep cs)"

text \<open>
  \<^verbatim>\<open>migrateFrom0_1_0To0_2_0(dataFile)\<close>: the backup is written first, as the text that was
  read.  \<open>parseLegacy\<close> is \<^verbatim>\<open>JSON.parse\<close> at the type \<^verbatim>\<open>LegacyTicketStorage_v0_1_0\<close> and
  \<open>stringify\<close> is \<^verbatim>\<open>JSON.stringify\<close> at the type \<^verbatim>\<open>TicketStorage\<close>.
\<close>

definition migrateFrom0_1_0To0_2_0 :: "(string \<Rightarrow> LegacyTicketStorage_v0_1_0 option)
    \<Rightarrow> (TicketStorage \<Rightarrow> string) \<Rightarrow> string \<Rightarrow> fs \<Rightarrow> completion \<times> fs" where
  "migrateFrom0_1_0To0_2_0 parseLegacy stringify dataFile files =
     (let backupFile = replaceFirst ''.json'' ''.0.1.0.json'' dataFile in
      case files dataFile of
        None \<Rightarrow> (Thrown, files)
      | Some originalData \<Rightarrow>
          (let files1 = files(backupFile \<mapsto> originalData) in
           case parseLegacy originalData of
             None \<Rightarrow> (Thrown, files1)
           | Some legacyData \<Rightarrow>
               (Done, files1(dataFile \<mapsto> stringify (convertStorage legacyData)))))"

text \<open>
  The migration metadata that the module exports, as \<^verbatim>\<open>discoverMigrations\<close> records it
  together with the name of the file it was loaded from.
\<close>

definition migration :: "(string \<Rightarrow> LegacyTicketStorage_v0_1_0 option)
    \<Rightarrow> (TicketStorage \<Rightarrow> string) \<Rightarrow> string \<Rightarrow> MigrationPath" where
  "migration parseLegacy stringify file =
     \<lparr>fromVersion = ''0.1.0'', toVersion = ''0.2.0'', migrationFile = file,
      migrate = migrateFrom0_1_0To0_2_0 parseLegacy stringify\<rparr>"

section \<open>Vocabulary of the properties\<close>

subsection \<open>Fully processed nodes of the cycle check\<close>

text \<open>
  What the traversal maintains about the fully processed nodes: their successors are
  fully processed too, and none of them lies on a cycle.
\<close>

definition closed_under :: "(string \<times> string) set \<Rightarrow> string set \<Rightarrow> bool" where
  "closed_under E D = (\<forall>x\<in>D. \<forall>y. (x, y) \<in> E \<longrightarrow> y \<in> D)"

definition cycle_free :: "(string \<times> string) set \<Rightarrow> string set \<Rightarrow> bool" where
  "cycle_free E D = (\<forall>x\<in>D. (x, x) \<notin> E\<^sup>+)"

subsection \<open>Fields carried by a batch of updates\<close>

text \<open>
  An update of the ticket \<open>k\<close> in the batch carries the field; and a ticket \<open>t'\<close> that has
  every field of \<open>t\<close> which no update of \<open>k\<close> carries, the time of the last update apart.
\<close>

definition carries :: "(TicketUpdateData \<Rightarrow> 'a option) \<Rightarrow> TicketUpdateData list \<Rightarrow> string \<Rightarrow> bool" where
  "carries field updates k = (\<exists>u\<in>set updates. ticketId u = k \<and> field u \<noteq> None)"

definition keepsUncarried :: "TicketUpdateData list \<Rightarrow> string \<Rightarrow> Ticket \<Rightarrow> Ticket \<Rightarrow> bool" where
  "keepsUncarried updates k t t' =
     ((\<not> carries idU updates k \<longrightarrow> idT t' = idT t) \<and>
      (\<not> carries titleU updates k \<longrightarrow> title t' = title t) \<and>
      (\<not> carries descriptionU updates k \<longrightarrow> description t' = description t) \<and>
      (\<not> carries projectsU updates k \<longrightarrow> projects t' = projects t) \<and>
      (\<not> carries blockedByU updates k \<longrightarrow> blockedBy t' = blockedBy t) \<and>
      (\<not> carries createdAtU updates k \<longrightarrow> createdAt t' = createdAt t) \<and>
      (\<not> carries statusU updates k \<longrightarrow> status t' = status t))"

subsection \<open>Updates of stored tickets\<close>

text \<open>
  When every update of a batch names a key of the document, every object that the third
  phase of \<^verbatim>\<open>updateTickets\<close> builds is a ticket.  The merge and the loop on tickets, to
  which the proofs reduce the loop on objects.
\<close>

definition mergeTicket :: "string \<Rightarrow> Ticket \<Rightarrow> TicketUpdateData \<Rightarrow> Ticket" where
  "mergeTicket now ticket u =
     \<lparr>idT = (case idU u of Some x \<Rightarrow> x | None \<Rightarrow> idT ticket),
      title = (case titleU u of Some x \<Rightarrow> x | None \<Rightarrow> title ticket),
      description = (case descriptionU u of Some x \<Rightarrow> x | None \<Rightarrow> description ticket),
      projects = (case projectsU u of Some x \<Rightarrow> x | None \<Rightarrow> projects ticket),
      blockedBy = (case blockedByU u of Some x \<Rightarrow> x | None \<Rightarrow> blockedBy ticket),
      createdAt = (case createdAtU u of Some x \<Rightarrow> x | None \<Rightarrow> createdAt ticket),
      updatedAt = now,
      status = (case statusU u of Some x \<Rightarrow> x | None \<Rightarrow> status ticket)\<rparr>"

fun applyStored :: "string \<Rightarrow> TicketUpdateData list \<Rightarrow> TicketStorage \<Rightarrow> Ticket list
    \<Rightarrow> TicketStorage \<times> Ticket list" where
  "applyStored now [] storage updatedTickets = (storage, updatedTickets)"
| "applyStored now (u # us) storage updatedTickets =
     (case lookup storage (ticketId u) of
        None \<Rightarrow> applyStored now us storage updatedTickets
      | Some ticket \<Rightarrow>
          (let updatedTicket = mergeTicket now ticket u
           in applyStored now us (putTicket (ticketId u) updatedTicket storage)
                (updatedTickets @ [updatedTicket])))"

subsection \<open>Items that fail\<close>

text \<open>
  The ways in which an item of a batch fails.  An item of \<^verbatim>\<open>createTickets\<close> names a
  dependency that fails the existence test of the service, or fails the cycle check when
  its turn comes in the second pass.  An update of \<^verbatim>\<open>updateTickets\<close> names a ticket that
  fails the existence test, or carries a \<^verbatim>\<open>blockedBy\<close> that contains the \<^verbatim>\<open>ticketId\<close> of
  the update or an id that fails the existence test, or that fails the cycle check.
\<close>

definition createRejected :: "string \<Rightarrow> TicketCreateData list \<Rightarrow> TicketStorage \<Rightarrow> bool" where
  "createRejected now items disk =
     ((\<exists>item\<in>set items. \<exists>d\<in>set (blockedByOrEmpty item). \<not> hasTicket disk d) \<or>
      (\<exists>pre item post storage created.
          items = pre @ item # post \<and>
          createLoop now pre disk [] = Inr (storage, created) \<and>
          checkCircularDependency (fst (generateId storage)) (blockedByOrEmpty item)
            (snd (generateId storage)) = Inl CircularDependency))"

definition updateRejected :: "TicketUpdateData list \<Rightarrow> TicketStorage \<Rightarrow> bool" where
  "updateRejected updates disk =
     ((\<exists>u\<in>set updates. \<not> hasTicket disk (ticketId u)) \<or>
      (\<exists>u\<in>set updates. \<exists>bb. blockedByU u = Some bb \<and>
          (ticketId u \<in> set bb \<or> (\<exists>d\<in>set bb. \<not> hasTicket disk d) \<or>
           checkCircularDependency (ticketId u) bb disk = Inl CircularDependency)))"

subsection \<open>Self-reference\<close>

text \<open>
  A document is free of self-references when every key is the \<^verbatim>\<open>id\<close> of its ticket and no
  ticket has its own \<^verbatim>\<open>id\<close> in \<^verbatim>\<open>blockedBy\<close>; the same for the \<^verbatim>\<open>dependencies\<close> of a legacy
  document.
\<close>

definition keysAreIds :: "TicketStorage \<Rightarrow> bool" where
  "keysAreIds storage = (\<forall>(k, t)\<in>set (tickets storage). idT t = k)"

definition selfBlocked :: "TicketStorage \<Rightarrow> bool" where
  "selfBlocked storage = (\<exists>(k, t)\<in>set (tickets storage). idT t \<in> set (blockedBy t))"

definition selfDependent :: "LegacyTicketStorage_v0_1_0 \<Rightarrow> bool" where
  "selfDependent legacyData = (\<exists>(k, t)\<in>set (ticketsL legacyData). idL t \<in> set (dependencies t))"

definition selfFree :: "TicketStorage \<Rightarrow> bool" where
  "selfFree storage = (keysAreIds storage \<and> \<not> selfBlocked storage)"

subsection \<open>Height and nodes of a research tree\<close>

text \<open>
  The height of a tree and of the list of trees that \<^verbatim>\<open>buildResearchTree\<close> returns: the
  field \<^verbatim>\<open>unblocks\<close> of a node at depth \<open>d\<close> holds the result of a recursive call at
  nesting depth \<open>d\<close>, so a list of height \<open>h\<close> comes from a path of \<open>h\<close> nested recursive
  calls.  And all the nodes of the trees.
\<close>

fun nodeHeight :: "ResearchTreeNode \<Rightarrow> nat" where
  "nodeHeight (Node i t us) = Suc (foldr max (map nodeHeight us) 0)"

definition forestHeight :: "ResearchTreeNode list \<Rightarrow> nat" where
  "forestHeight ns = foldr max (map nodeHeight ns) 0"

fun nodesOf :: "ResearchTreeNode \<Rightarrow> ResearchTreeNode list" where
  "nodesOf (Node i t us) = Node i t us # concat (map nodesOf us)"

definition forestNodes :: "ResearchTreeNode list \<Rightarrow> ResearchTreeNode list" where
  "forestNodes ns = concat (map nodesOf ns)"

subsection \<open>Chains of migrations and the invariant of the search\<close>

text \<open>
  A chain of steps of the catalog from one version to another.  The invariant of the
  search: every path in the queue is a chain from the start to its version; the versions
  in the queue are visited; the lengths of the paths in the queue increase and differ by
  one at most; the migrations from a version that has left the queue lead to visited
  versions; no chain to a version in the queue is shorter than its path; and the target
  has not left the queue.
\<close>

fun chain :: "MigrationPath list \<Rightarrow> string \<Rightarrow> string \<Rightarrow> MigrationPath list \<Rightarrow> bool" where
  "chain cat a b [] = (a = b)"
| "chain cat a b (m # ms) = (m \<in> set cat \<and> fromVersion m = a \<and> chain cat (toVersion m) b ms)"

definition doneSet :: "(string \<times> MigrationPath list) list \<Rightarrow> string set \<Rightarrow> string set" where
  "doneSet queue visited = visited - fst ` set queue"

definition bfs_inv :: "MigrationPath list \<Rightarrow> string \<Rightarrow> string
    \<Rightarrow> (string \<times> MigrationPath list) list \<Rightarrow> string set \<Rightarrow> bool" where
  "bfs_inv cat fromV toV queue visited =
     ((\<forall>(v, p)\<in>set queue. chain cat fromV v p) \<and>
      fst ` set queue \<subseteq> visited \<and> fromV \<in> visited \<and>
      sorted (map (length \<circ> snd) queue) \<and>
      (\<forall>(v, p)\<in>set queue. \<forall>(v', p')\<in>set queue. length p \<le> Suc (length p')) \<and>
      (\<forall>u\<in>doneSet queue visited. \<forall>m\<in>set cat. fromVersion m = u \<longrightarrow> toVersion m \<in> visited) \<and>
      (\<forall>(v, p)\<in>set queue. \<forall>c. chain cat fromV v c \<longrightarrow> length p \<le> length c) \<and>
      toV \<notin> doneSet queue visited)"

subsection \<open>The graph of a stored document\<close>

text \<open>The graph of a stored document: an edge from every key to every id in its \<^verbatim>\<open>blockedBy\<close>.\<close>

definition stored_edges :: "TicketStorage \<Rightarrow> (string \<times> string) set" where
  "stored_edges storage = {(a, b). \<exists>t. lookup storage a = Some t \<and> b \<in> set (blockedBy t)}"

section \<open>Example documents\<close>

text \<open>Two open tickets; the second one is blocked by the first.\<close>

definition ex_ticket :: "string \<Rightarrow> string list \<Rightarrow> Status \<Rightarrow> Ticket" where
  "ex_ticket i bb st =
     \<lparr>idT = i, title = ''t'', description = ''d'', projects = [], blockedBy = bb,
      createdAt = ''2025-01-01T00:00:00.000Z'', updatedAt = ''2025-01-01T00:00:00.000Z'',
      status = st\<rparr>"

definition ex_chain :: TicketStorage where
  "ex_chain =
     \<lparr>version = ''0.2.0'',
      tickets = [(''TICKET-0001'', ex_ticket ''TICKET-0001'' [] Open),
                 (''TICKET-0002'', ex_ticket ''TICKET-0002'' [''TICKET-0001''] Open)],
      nextId = 3\<rparr>"

text \<open>The first ticket closed, the second blocked by it, the third blocked by the second.\<close>

definition ex_closed_chain :: TicketStorage where
  "ex_closed_chain =
     \<lparr>version = ''0.2.0'',
      tickets = [(''TICKET-0001'', ex_ticket ''TICKET-0001'' [] Closed),
                 (''TICKET-0002'', ex_ticket ''TICKET-0002'' [''TICKET-0001''] Open),
                 (''TICKET-0003'', ex_ticket ''TICKET-0003'' [''TICKET-0002''] Open)],
      nextId = 4\<rparr>"

definition ex_now :: string where
  "ex_now = ''2025-06-01T12:00:00.000Z''"

text \<open>An update that carries nothing but the \<^verbatim>\<open>ticketId\<close>.\<close>

definition ex_update :: "string \<Rightarrow> TicketUpdateData" where
  "ex_update tid =
     \<lparr>ticketId = tid, idU = None, titleU = None, descriptionU = None, projectsU = None,
      blockedByU = None, createdAtU = None, updatedAtU = None, statusU = None\<rparr>"

text \<open>A batch whose second update names a ticket that does not exist.\<close>

definition ex_updates_missing :: "TicketUpdateData list" where
  "ex_updates_missing =
     [(ex_update ''TICKET-0002'')\<lparr>blockedByU := Some [''TICKET-0001'']\<rparr>,
      (ex_update ''TICKET-0009'')\<lparr>titleU := Some ''x''\<rparr>]"

text \<open>A batch of one item that is blocked by a ticket that does not exist.\<close>

definition ex_items_missing :: "TicketCreateData list" where
  "ex_items_missing =
     [\<lparr>titleC = ''t'', descriptionC = ''d'', projectsC = [],
        blockedByC = Some [''TICKET-0009'']\<rparr>]"

text \<open>An update of the title of the second ticket, and the document with the update applied.\<close>

definition ex_updates_title :: "TicketUpdateData list" where
  "ex_updates_title = [(ex_update ''TICKET-0002'')\<lparr>titleU := Some ''x''\<rparr>]"

definition ex_titled :: Ticket where
  "ex_titled =
     \<lparr>idT = ''TICKET-0002'', title = ''x'', description = ''d'', projects = [],
      blockedBy = [''TICKET-0001''], createdAt = ''2025-01-01T00:00:00.000Z'',
      updatedAt = ex_now, status = Open\<rparr>"

definition ex_chain_titled :: TicketStorage where
  "ex_chain_titled =
     \<lparr>version = ''0.2.0'',
      tickets = [(''TICKET-0001'', ex_ticket ''TICKET-0001'' [] Open),
                 (''TICKET-0002'', ex_titled)],
      nextId = 3\<rparr>"

text \<open>
  An update of the second ticket that carries \<^verbatim>\<open>id\<close>, \<^verbatim>\<open>projects\<close> and \<^verbatim>\<open>createdAt\<close>, and
  the document with the update applied.
\<close>

definition ex_updates_identity :: "TicketUpdateData list" where
  "ex_updates_identity =
     [(ex_update ''TICKET-0002'')
        \<lparr>idU := Some ''TICKET-0001'', projectsU := Some [''p''],
         createdAtU := Some ''1999-01-01T00:00:00.000Z''\<rparr>]"

definition ex_identity_replaced :: Ticket where
  "ex_identity_replaced =
     \<lparr>idT = ''TICKET-0001'', title = ''t'', description = ''d'', projects = [''p''],
      blockedBy = [''TICKET-0001''], createdAt = ''1999-01-01T00:00:00.000Z'',
      updatedAt = ex_now, status = Open\<rparr>"

definition ex_chain_identity :: TicketStorage where
  "ex_chain_identity =
     \<lparr>version = ''0.2.0'',
      tickets = [(''TICKET-0001'', ex_ticket ''TICKET-0001'' [] Open),
                 (''TICKET-0002'', ex_identity_replaced)],
      nextId = 3\<rparr>"

text \<open>
  A ticket blocked by \<^verbatim>\<open>constructor\<close>, a name that \<^verbatim>\<open>Object.prototype\<close> provides and that
  is no key of the document, and the document without that dependency.
\<close>

definition ex_inherited :: TicketStorage where
  "ex_inherited =
     \<lparr>version = ''0.2.0'',
      tickets = [(''TICKET-0001'', ex_ticket ''TICKET-0001'' [''constructor''] Open)],
      nextId = 2\<rparr>"

definition ex_inherited_stripped :: TicketStorage where
  "ex_inherited_stripped =
     \<lparr>version = ''0.2.0'',
      tickets = [(''TICKET-0001'', ex_ticket ''TICKET-0001'' [] Open)],
      nextId = 2\<rparr>"

text \<open>
  A file system with one data file, whose text parses to an empty document of the current
  version, and a catalog that holds the migration from 0.1.0.
\<close>

definition ex_files :: fs where
  "ex_files = [''data/tickets.json'' \<mapsto> ''current'']"

definition ex_parse :: "string \<Rightarrow> json option" where
  "ex_parse text =
     (if text = ''current''
      then Some (JObj [(''version'', JStr ''0.2.0''), (''tickets'', JObj []), (''nextId'', JNum 1)])
      else None)"

definition ex_catalog :: "MigrationPath list" where
  "ex_catalog = [migration (\<lambda>text. None) (\<lambda>data. ''migrated'') ''v0.1.0-to-v0.2.0.js'']"

text \<open>A legacy document whose only ticket depends on itself, in a file system of its own.\<close>

definition ex_legacy_self :: LegacyTicketStorage_v0_1_0 where
  "ex_legacy_self =
     \<lparr>ticketsL = [(''TICKET-0001'',
         \<lparr>idL = ''TICKET-0001'', titleL = ''t'', descriptionL = ''d'', projectsL = [],
          dependencies = [''TICKET-0001''], createdAtL = ''2025-01-01T00:00:00.000Z'',
          updatedAtL = ''2025-01-01T00:00:00.000Z'', statusL = Open\<rparr>)],
      nextIdL = 2\<rparr>"

definition ex_legacy_files :: fs where
  "ex_legacy_files = [''data/tickets.json'' \<mapsto> ''legacy'']"

definition ex_parseLegacy :: "string \<Rightarrow> LegacyTicketStorage_v0_1_0 option" where
  "ex_parseLegacy text = (if text = ''legacy'' then Some ex_legacy_self else None)"

text \<open>An update that makes the second ticket block itself.\<close>

definition ex_updates_self :: "TicketUpdateData list" where
  "ex_updates_self = [(ex_update ''TICKET-0002'')\<lparr>blockedByU := Some [''TICKET-0002'']\<rparr>]"

definition ex_stringify :: "TicketStorage \<Rightarrow> string" where
  "ex_stringify data = ''migrated to '' @ version data"

text \<open>Two open tickets that block each other.\<close>

definition ex_cycle :: TicketStorage where
  "ex_cycle =
     \<lparr>version = ''0.2.0'',
      tickets = [(''TICKET-0001'', ex_ticket ''TICKET-0001'' [''TICKET-0002''] Open),
                 (''TICKET-0002'', ex_ticket ''TICKET-0002'' [''TICKET-0001''] Open)],
      nextId = 3\<rparr>"

text \<open>
  A catalog with a step from 0.1.0 to 0.2.0 and a step from 0.2.0 to 0.3.0; each step
  replaces the text of the data file.
\<close>

definition ex_m12 :: MigrationPath where
  "ex_m12 = \<lparr>fromVersion = ''0.1.0'', toVersion = ''0.2.0'', migrationFile = ''v0.1.0-to-v0.2.0.js'',
     migrate = (\<lambda>dataFile files. (Done, files(dataFile \<mapsto> ''document 0.2.0'')))\<rparr>"

definition ex_m23 :: MigrationPath where
  "ex_m23 = \<lparr>fromVersion = ''0.2.0'', toVersion = ''0.3.0'', migrationFile = ''v0.2.0-to-v0.3.0.js'',
     migrate = (\<lambda>dataFile files. (Done, files(dataFile \<mapsto> ''document 0.3.0'')))\<rparr>"

text \<open>
  Two open tickets without dependencies, a batch that makes each of them blocked by the
  other, and the document with both updates applied.
\<close>

definition ex_pair :: TicketStorage where
  "ex_pair =
     \<lparr>version = ''0.2.0'',
      tickets = [(''TICKET-0001'', ex_ticket ''TICKET-0001'' [] Open),
                 (''TICKET-0002'', ex_ticket ''TICKET-0002'' [] Open)],
      nextId = 3\<rparr>"

definition ex_updates_joint :: "TicketUpdateData list" where
  "ex_updates_joint =
     [(ex_update ''TICKET-0001'')\<lparr>blockedByU := Some [''TICKET-0002'']\<rparr>,
      (ex_update ''TICKET-0002'')\<lparr>blockedByU := Some [''TICKET-0001'']\<rparr>]"

definition ex_pair_updated :: TicketStorage where
  "ex_pair_updated =
     \<lparr>version = ''0.2.0'',
      tickets = [(''TICKET-0001'', (ex_ticket ''TICKET-0001'' [''TICKET-0002''] Open)\<lparr>updatedAt := ex_now\<rparr>),
                 (''TICKET-0002'', (ex_ticket ''TICKET-0002'' [''TICKET-0001''] Open)\<lparr>updatedAt := ex_now\<rparr>)],
      nextId = 3\<rparr>"

section \<open>Cycle detection\<close>

text \<open>A call that finds no cycle leaves the set of nodes on the current path as it was.\<close>

lemma hasCycle_visiting_restored:
  "\<not> fst (hasCycle tid bb storage i s) \<Longrightarrow> fst (snd (hasCycle tid bb storage i s)) = fst s"
  "\<not> fst (hasCycle_deps tid bb storage ds s) \<Longrightarrow> fst (snd (hasCycle_deps tid bb storage ds s)) = fst s"
proof (induction tid bb storage i s and tid bb storage ds s rule: hasCycle_hasCycle_deps.induct)
  case (1 tid bb storage i s)
  then show ?case
    by (auto simp: hasCycle.simps[of tid bb storage i s] Let_def split: if_splits)
next
  case (2 tid bb storage s)
  then show ?case by (simp add: hasCycle_deps.simps)
next
  case (3 tid bb storage d ds s)
  then show ?case
    by (auto simp: hasCycle_deps.simps(2)[of tid bb storage d ds s] Let_def split: if_splits)
qed

text \<open>
  Soundness: when every node on the current path reaches the node that is entered, a
  positive answer comes with a cycle that the node reaches.
\<close>

lemma hasCycle_sound:
  "fst (hasCycle tid bb storage i s) \<Longrightarrow> \<forall>p\<in>fst s. (p, i) \<in> (dep_edges tid bb storage)\<^sup>+ \<Longrightarrow>
     cycle_reachable (dep_edges tid bb storage) i"
  "fst (hasCycle_deps tid bb storage ds s) \<Longrightarrow>
     \<forall>p\<in>fst s. \<forall>d\<in>set ds. (p, d) \<in> (dep_edges tid bb storage)\<^sup>+ \<Longrightarrow>
     \<exists>d\<in>set ds. cycle_reachable (dep_edges tid bb storage) d"
proof (induction tid bb storage i s and tid bb storage ds s rule: hasCycle_hasCycle_deps.induct)
  case (1 tid bb storage i s)
  let ?E = "dep_edges tid bb storage"
  show ?case
  proof (cases "i \<in> fst s")
    case True
    with 1(3) have "(i, i) \<in> ?E\<^sup>+" by blast
    then show ?thesis unfolding cycle_reachable_def by blast
  next
    case False
    with 1(2) have nv: "i \<notin> snd s"
      by (auto simp: hasCycle.simps[of tid bb storage i s])
    let ?r = "hasCycle_deps tid bb storage (deps_of tid bb storage i) (insert i (fst s), snd s)"
    from 1(2) False nv have fr: "fst ?r"
      by (auto simp: hasCycle.simps[of tid bb storage i s] Let_def split: if_splits)
    have step: "\<And>d. d \<in> set (deps_of tid bb storage i) \<Longrightarrow> (i, d) \<in> ?E"
      by (simp add: dep_edges_def)
    have "\<forall>p\<in>fst (insert i (fst s), snd s). \<forall>d\<in>set (deps_of tid bb storage i). (p, d) \<in> ?E\<^sup>+"
      using 1(3) step by (auto intro: trancl_into_trancl)
    from 1(1)[OF False nv fr this]
    obtain d x where d: "d \<in> set (deps_of tid bb storage i)" and x: "(d, x) \<in> ?E\<^sup>*" "(x, x) \<in> ?E\<^sup>+"
      unfolding cycle_reachable_def by blast
    from step[OF d] x(1) have "(i, x) \<in> ?E\<^sup>*" by (rule converse_rtrancl_into_rtrancl)
    with x(2) show ?thesis unfolding cycle_reachable_def by blast
  qed
next
  case (2 tid bb storage s)
  then show ?case by (simp add: hasCycle_deps.simps)
next
  case (3 tid bb storage d ds s)
  show ?case
  proof (cases "fst (hasCycle tid bb storage d s)")
    case True
    from 3(1)[OF True] 3(4) show ?thesis by auto
  next
    case False
    with 3(3) have "fst (hasCycle_deps tid bb storage ds (snd (hasCycle tid bb storage d s)))"
      by (simp add: hasCycle_deps.simps(2)[of tid bb storage d ds s] Let_def)
    moreover have "fst (snd (hasCycle tid bb storage d s)) = fst s"
      using False by (rule hasCycle_visiting_restored(1))
    ultimately show ?thesis using 3(2)[OF refl False] 3(4) by auto
  qed
qed

text \<open>
  Completeness: a negative answer leaves the entered node fully processed, and the
  invariant of the fully processed nodes holds again.
\<close>

lemma closed_under_rtrancl:
  "(x, y) \<in> E\<^sup>* \<Longrightarrow> closed_under E D \<Longrightarrow> x \<in> D \<Longrightarrow> y \<in> D"
  by (induction rule: rtrancl_induct) (auto simp: closed_under_def)

lemma closed_cycle_free_insert:
  assumes c: "closed_under E D" and a: "cycle_free E D"
    and succ: "\<And>y. (i, y) \<in> E \<Longrightarrow> y \<in> D"
  shows "closed_under E (insert i D) \<and> cycle_free E (insert i D)"
proof
  show "closed_under E (insert i D)"
    using c succ by (auto simp: closed_under_def)
  have "(i, i) \<notin> E\<^sup>+"
  proof
    assume "(i, i) \<in> E\<^sup>+"
    then obtain y where y: "(i, y) \<in> E" "(y, i) \<in> E\<^sup>*"
      by (meson tranclD)
    from closed_under_rtrancl[OF y(2) c succ[OF y(1)]] have "i \<in> D" .
    with a \<open>(i, i) \<in> E\<^sup>+\<close> show False by (auto simp: cycle_free_def)
  qed
  with a show "cycle_free E (insert i D)" by (auto simp: cycle_free_def)
qed

lemma hasCycle_complete:
  "\<not> fst (hasCycle tid bb storage i s) \<Longrightarrow>
     closed_under (dep_edges tid bb storage) (snd s) \<Longrightarrow> cycle_free (dep_edges tid bb storage) (snd s) \<Longrightarrow>
     snd s \<subseteq> snd (snd (hasCycle tid bb storage i s)) \<and>
     closed_under (dep_edges tid bb storage) (snd (snd (hasCycle tid bb storage i s))) \<and>
     cycle_free (dep_edges tid bb storage) (snd (snd (hasCycle tid bb storage i s))) \<and>
     i \<in> snd (snd (hasCycle tid bb storage i s))"
  "\<not> fst (hasCycle_deps tid bb storage ds s) \<Longrightarrow>
     closed_under (dep_edges tid bb storage) (snd s) \<Longrightarrow> cycle_free (dep_edges tid bb storage) (snd s) \<Longrightarrow>
     snd s \<subseteq> snd (snd (hasCycle_deps tid bb storage ds s)) \<and>
     closed_under (dep_edges tid bb storage) (snd (snd (hasCycle_deps tid bb storage ds s))) \<and>
     cycle_free (dep_edges tid bb storage) (snd (snd (hasCycle_deps tid bb storage ds s))) \<and>
     set ds \<subseteq> snd (snd (hasCycle_deps tid bb storage ds s))"
proof (induction tid bb storage i s and tid bb storage ds s rule: hasCycle_hasCycle_deps.induct)
  case (1 tid bb storage i s)
  let ?E = "dep_edges tid bb storage"
  from 1(2) have nP: "i \<notin> fst s"
    by (auto simp: hasCycle.simps[of tid bb storage i s])
  show ?case
  proof (cases "i \<in> snd s")
    case True
    with nP 1(3,4) show ?thesis
      by (simp add: hasCycle.simps[of tid bb storage i s])
  next
    case False
    let ?r = "hasCycle_deps tid bb storage (deps_of tid bb storage i) (insert i (fst s), snd s)"
    from 1(2) nP False have fr: "\<not> fst ?r"
      by (auto simp: hasCycle.simps[of tid bb storage i s] Let_def split: if_splits)
    have res: "snd (snd (hasCycle tid bb storage i s)) = insert i (snd (snd ?r))"
      using nP False fr by (simp add: hasCycle.simps[of tid bb storage i s] Let_def)
    from 1(1)[OF nP False fr] 1(3,4)
    have ih: "snd s \<subseteq> snd (snd ?r)" "closed_under ?E (snd (snd ?r))" "cycle_free ?E (snd (snd ?r))"
      "set (deps_of tid bb storage i) \<subseteq> snd (snd ?r)"
      by simp_all
    have "\<And>y. (i, y) \<in> ?E \<Longrightarrow> y \<in> snd (snd ?r)"
      using ih(4) by (auto simp: dep_edges_def)
    from closed_cycle_free_insert[OF ih(2,3) this] ih(1) show ?thesis
      unfolding res by auto
  qed
next
  case (2 tid bb storage s)
  then show ?case by (simp add: hasCycle_deps.simps)
next
  case (3 tid bb storage d ds s)
  let ?r = "hasCycle tid bb storage d s"
  from 3(3) have f1: "\<not> fst ?r"
    by (auto simp: hasCycle_deps.simps(2)[of tid bb storage d ds s] Let_def split: if_splits)
  then have res: "hasCycle_deps tid bb storage (d # ds) s = hasCycle_deps tid bb storage ds (snd ?r)"
    by (simp add: hasCycle_deps.simps(2)[of tid bb storage d ds s] Let_def)
  from 3(1)[OF f1 3(4,5)]
  have a: "snd s \<subseteq> snd (snd ?r)" "closed_under (dep_edges tid bb storage) (snd (snd ?r))"
    "cycle_free (dep_edges tid bb storage) (snd (snd ?r))" "d \<in> snd (snd ?r)"
    by simp_all
  from 3(3) res have f2: "\<not> fst (hasCycle_deps tid bb storage ds (snd ?r))" by simp
  from 3(2)[OF refl f1 f2 a(2,3)] a(1,4) show ?case
    unfolding res by auto
qed

lemma hasCycle_correct:
  "fst (hasCycle tid bb storage tid ({}, {})) \<longleftrightarrow> cycle_reachable (dep_edges tid bb storage) tid"
proof
  assume "fst (hasCycle tid bb storage tid ({}, {}))"
  then show "cycle_reachable (dep_edges tid bb storage) tid"
    by (rule hasCycle_sound(1)) simp
next
  assume cr: "cycle_reachable (dep_edges tid bb storage) tid"
  show "fst (hasCycle tid bb storage tid ({}, {}))"
  proof (rule ccontr)
    assume n: "\<not> fst (hasCycle tid bb storage tid ({}, {}))"
    let ?D = "snd (snd (hasCycle tid bb storage tid ({}, {})))"
    from hasCycle_complete(1)[OF n]
    have c: "closed_under (dep_edges tid bb storage) ?D" and a: "cycle_free (dep_edges tid bb storage) ?D"
      and m: "tid \<in> ?D"
      by (simp_all add: closed_under_def cycle_free_def)
    from cr obtain x where x: "(tid, x) \<in> (dep_edges tid bb storage)\<^sup>*" "(x, x) \<in> (dep_edges tid bb storage)\<^sup>+"
      unfolding cycle_reachable_def by blast
    from closed_under_rtrancl[OF x(1) c m] a x(2) show False
      by (auto simp: cycle_free_def)
  qed
qed

lemma checkCircularDependency_cases:
  "checkCircularDependency tid bb storage = Inl CircularDependency
     \<or> checkCircularDependency tid bb storage = Inr ()"
  by (simp add: checkCircularDependency_def)

text \<open>
  C3.  \<^verbatim>\<open>checkCircularDependency(ticketId, blockedBy, storage)\<close> throws the circular
  dependency error if and only if the graph in which the candidate's edges are the
  candidate list and every other stored ticket's edges are its stored \<^verbatim>\<open>blockedBy\<close> has a
  cycle that can be reached from the candidate.  The check is the depth-first traversal
  \<open>hasCycle\<close> with the set of the nodes on the current path and the set of the fully
  processed nodes.
\<close>

theorem checkCircularDependency_iff:
  "checkCircularDependency tid bb storage = Inl CircularDependency
     \<longleftrightarrow> cycle_reachable (dep_edges tid bb storage) tid"
  by (simp add: checkCircularDependency_def hasCycle_correct)

theorem checkCircularDependency_iff_witness:
  "checkCircularDependency ''TICKET-0001'' [''TICKET-0002''] ex_chain = Inl CircularDependency
     \<and> cycle_reachable (dep_edges ''TICKET-0001'' [''TICKET-0002''] ex_chain) ''TICKET-0001''"
proof -
  have "checkCircularDependency ''TICKET-0001'' [''TICKET-0002''] ex_chain = Inl CircularDependency"
    by code_simp
  with checkCircularDependency_iff[of "''TICKET-0001''" "[''TICKET-0002'']" ex_chain]
  show ?thesis by simp
qed

section \<open>Next tickets\<close>

lemma isReady_iff:
  "isReady storage ticket \<longleftrightarrow>
     status ticket \<noteq> Closed \<and>
     (\<forall>depId\<in>set (blockedBy ticket). \<exists>dep. lookup storage depId = Some dep \<and> status dep = Closed)"
  by (auto simp: isReady_def list_all_iff split: option.splits)

lemma nextSelected_subset:
  "set (nextSelected getTime project storage) \<subseteq> {t \<in> snd ` set (tickets storage). isReady storage t}"
  by (auto simp: nextSelected_def Let_def split: option.splits)

text \<open>
  C4.  Every ticket that \<^verbatim>\<open>nextTickets\<close> returns is built from a stored ticket whose status
  is not \<^verbatim>\<open>closed\<close> and whose \<^verbatim>\<open>blockedBy\<close> is empty or names only keys of the document
  whose tickets are closed; a ticket with an entry in \<^verbatim>\<open>blockedBy\<close> that is no key of the
  document is not returned.
\<close>

theorem nextTickets_ready:
  assumes "n \<in> set (nextTickets getTime project disk)"
  shows "statusN n \<noteq> Closed \<and>
     (\<exists>ticket\<in>snd ` set (tickets disk).
        n = toNextTicket disk ticket \<and> status ticket \<noteq> Closed \<and>
        (blockedBy ticket = [] \<or>
         (\<forall>depId\<in>set (blockedBy ticket). \<exists>dep. lookup disk depId = Some dep \<and> status dep = Closed)) \<and>
        \<not> (\<exists>depId\<in>set (blockedBy ticket). lookup disk depId = None))"
proof -
  from assms obtain ticket where t: "ticket \<in> set (nextSelected getTime project disk)"
    and n: "n = toNextTicket disk ticket"
    by (auto simp: nextTickets_def readData_def)
  from t nextSelected_subset have m: "ticket \<in> snd ` set (tickets disk)" and r: "isReady disk ticket"
    by blast+
  from r have "status ticket \<noteq> Closed"
    and d: "\<forall>depId\<in>set (blockedBy ticket). \<exists>dep. lookup disk depId = Some dep \<and> status dep = Closed"
    by (simp_all add: isReady_iff)
  moreover from d have "\<not> (\<exists>depId\<in>set (blockedBy ticket). lookup disk depId = None)" by fastforce
  moreover have "statusN n = status ticket" by (simp add: n toNextTicket_def)
  ultimately show ?thesis using m n by auto
qed

theorem nextTickets_ready_witness:
  "nextTickets (\<lambda>s. 0) None ex_closed_chain \<noteq> [] \<and>
   idN (hd (nextTickets (\<lambda>s. 0) None ex_closed_chain)) = ''TICKET-0002'' \<and>
   statusN (hd (nextTickets (\<lambda>s. 0) None ex_closed_chain)) \<noteq> Closed"
proof -
  have ne: "nextTickets (\<lambda>s. 0) None ex_closed_chain \<noteq> []" by code_simp
  then have "hd (nextTickets (\<lambda>s. 0) None ex_closed_chain) \<in> set (nextTickets (\<lambda>s. 0) None ex_closed_chain)"
    by simp
  from nextTickets_ready[OF this] have "statusN (hd (nextTickets (\<lambda>s. 0) None ex_closed_chain)) \<noteq> Closed"
    by blast
  moreover have "idN (hd (nextTickets (\<lambda>s. 0) None ex_closed_chain)) = ''TICKET-0002''" by code_simp
  ultimately show ?thesis using ne by simp
qed

section \<open>Names inherited from \<^verbatim>\<open>Object.prototype\<close>\<close>

lemma hasTicket_stored: "lookup storage k \<noteq> None \<Longrightarrow> hasTicket storage k"
  by (auto simp: hasTicket_def)

lemma hasTicket_iff:
  "hasTicket storage k \<longleftrightarrow> lookup storage k \<noteq> None \<or> k \<in> set prototypeNames"
  by (auto simp: hasTicket_def split: option.splits)

text \<open>
  The name \<^verbatim>\<open>constructor\<close> is no key of the example documents and passes the existence
  test.  On the empty document, \<^verbatim>\<open>createTicket\<close> with that name in \<^verbatim>\<open>blockedBy\<close> succeeds
  and writes the ticket; \<^verbatim>\<open>readTicket\<close> of the name returns a value that is no ticket;
  \<^verbatim>\<open>updateTickets\<close> of the name succeeds and writes, under a new key, an object that has
  the title of the update and the time of the call and nothing else.
\<close>

lemma createTicket_inherited_dependency:
  "createTicket ''2025-01-01T00:00:00.000Z'' ''t'' ''d'' [] [''constructor'']
       \<lparr>version = ''0.2.0'', tickets = [], nextId = 1\<rparr>
     = (Inr (ex_ticket ''TICKET-0001'' [''constructor''] Open), ex_inherited)"
  by code_simp

lemma readTicket_inherited_name:
  "lookup ex_chain ''constructor'' = None \<and> readTicket ''constructor'' ex_chain = Inr None"
  by code_simp

lemma updateTickets_inherited_name:
  "updateTickets ex_now [(ex_update ''constructor'')\<lparr>titleU := Some ''x''\<rparr>] ex_chain
     = (Inr [emptyObject\<lparr>titleP := Some ''x'', updatedAtP := Some ex_now\<rparr>],
        Objects ''0.2.0''
          [(''TICKET-0001'', spreadTicket (ex_ticket ''TICKET-0001'' [] Open)),
           (''TICKET-0002'', spreadTicket (ex_ticket ''TICKET-0002'' [''TICKET-0001''] Open)),
           (''constructor'', emptyObject\<lparr>titleP := Some ''x'', updatedAtP := Some ex_now\<rparr>)]
          3)"
  by code_simp

section \<open>Deleting a ticket\<close>

lemma lookup_delete:
  "lookup (storage\<lparr>tickets := AList.delete tid (map (\<lambda>(k, ticket). (k, f ticket)) (tickets storage))\<rparr>) k
     = (if k = tid then None else map_option f (lookup storage k))"
  by (simp add: lookup_def AList.delete_conv' map_of_map[unfolded comp_def, simplified] )

lemma filter_neq_removeAll: "filter (\<lambda>dep. dep \<noteq> x) xs = removeAll x xs"
  by (induction xs) auto

lemma keys_delete_map:
  "map fst (AList.delete k (map (\<lambda>(a, b). (a, f b)) xs)) = removeAll k (map fst xs)"
  by (induction xs) (auto simp: AList.delete_eq)

lemma delete_absent: "k \<notin> fst ` set xs \<Longrightarrow> AList.delete k xs = xs"
  by (induction xs) (auto simp: AList.delete_eq)

text \<open>
  When the id is a key, \<^verbatim>\<open>deleteTicket\<close> writes a document in which it is no key any
  more, every other ticket has the id removed from its \<^verbatim>\<open>blockedBy\<close> and is unchanged in
  every other field, and the order of the keys, the version and the counter are kept.
  When the id fails the existence test, the operation fails with the not-found error and
  the document stays as it was.
\<close>

lemma deleteTicket_stored:
  "(lookup disk tid \<noteq> None \<longrightarrow>
      (\<exists>disk'. deleteTicket tid disk = (Inr True, disk') \<and>
         lookup disk' tid = None \<and> tid \<notin> fst ` set (tickets disk') \<and>
         (\<forall>k. k \<noteq> tid \<longrightarrow>
            (case lookup disk k of
               None \<Rightarrow> lookup disk' k = None
             | Some t \<Rightarrow> lookup disk' k = Some (t\<lparr>blockedBy := removeAll tid (blockedBy t)\<rparr>))) \<and>
         map fst (tickets disk') = removeAll tid (map fst (tickets disk)) \<and>
         version disk' = version disk \<and> nextId disk' = nextId disk))
   \<and> (\<not> hasTicket disk tid \<longrightarrow> deleteTicket tid disk = (Inl (TicketNotFound tid), disk))"
proof (intro conjI impI)
  assume ex: "lookup disk tid \<noteq> None"
  let ?d = "disk\<lparr>tickets := AList.delete tid (map (\<lambda>(k, ticket). (k, stripDependency tid ticket)) (tickets disk))\<rparr>"
  have r: "deleteTicket tid disk = (Inr True, ?d)"
    using hasTicket_stored[OF ex] by (simp add: deleteTicket_def readData_def writeData_def Let_def)
  have strip: "\<And>t. stripDependency tid t = t\<lparr>blockedBy := removeAll tid (blockedBy t)\<rparr>"
    by (simp add: stripDependency_def filter_neq_removeAll)
  have l: "\<And>k. lookup ?d k = (if k = tid then None else map_option (stripDependency tid) (lookup disk k))"
    by (rule lookup_delete)
  have keys: "map fst (tickets ?d) = removeAll tid (map fst (tickets disk))"
    by (simp add: keys_delete_map)
  have "fst ` set (tickets ?d) = set (map fst (tickets ?d))" by simp
  also have "\<dots> = set (removeAll tid (map fst (tickets disk)))" by (simp only: keys)
  finally have "tid \<notin> fst ` set (tickets ?d)" by simp
  have rest: "\<forall>k. k \<noteq> tid \<longrightarrow>
            (case lookup disk k of
               None \<Rightarrow> lookup ?d k = None
             | Some t \<Rightarrow> lookup ?d k = Some (t\<lparr>blockedBy := removeAll tid (blockedBy t)\<rparr>))"
    by (simp add: l split: option.splits) (simp add: strip)
  have "lookup ?d tid = None" by (simp add: l)
  with r keys rest \<open>tid \<notin> fst ` set (tickets ?d)\<close> show "\<exists>disk'. deleteTicket tid disk = (Inr True, disk') \<and>
         lookup disk' tid = None \<and> tid \<notin> fst ` set (tickets disk') \<and>
         (\<forall>k. k \<noteq> tid \<longrightarrow>
            (case lookup disk k of
               None \<Rightarrow> lookup disk' k = None
             | Some t \<Rightarrow> lookup disk' k = Some (t\<lparr>blockedBy := removeAll tid (blockedBy t)\<rparr>))) \<and>
         map fst (tickets disk') = removeAll tid (map fst (tickets disk)) \<and>
         version disk' = version disk \<and> nextId disk' = nextId disk"
    by (intro exI[of _ ?d]) simp
next
  assume "\<not> hasTicket disk tid"
  then show "deleteTicket tid disk = (Inl (TicketNotFound tid), disk)"
    by (simp add: deleteTicket_def readData_def)
qed

text \<open>
  A name that \<^verbatim>\<open>Object.prototype\<close> provides and that is no key passes the existence test:
  the operation returns \<^verbatim>\<open>true\<close>, and the document written has the same tickets with the
  name taken out of every \<^verbatim>\<open>blockedBy\<close>.
\<close>

lemma deleteTicket_inherited:
  assumes "tid \<in> set prototypeNames" and "lookup disk tid = None"
  shows "deleteTicket tid disk =
    (Inr True, disk\<lparr>tickets := map (\<lambda>(k, ticket). (k, stripDependency tid ticket)) (tickets disk)\<rparr>)"
proof -
  have "tid \<notin> fst ` set (tickets disk)"
    using assms(2) by (simp add: lookup_def map_of_eq_None_iff)
  then have "tid \<notin> fst ` set (map (\<lambda>(k, ticket). (k, stripDependency tid ticket)) (tickets disk))"
    by (force simp: image_iff)
  then have "AList.delete tid (map (\<lambda>(k, ticket). (k, stripDependency tid ticket)) (tickets disk))
      = map (\<lambda>(k, ticket). (k, stripDependency tid ticket)) (tickets disk)"
    by (rule delete_absent)
  with assms(1) show ?thesis
    by (simp add: deleteTicket_def readData_def writeData_def Let_def hasTicket_iff)
qed

text \<open>
  C9.  \<^verbatim>\<open>deleteTicket\<close> of an id that is no key of the document does not always fail
  with the not-found error.  In a document whose only ticket is blocked by
  \<^verbatim>\<open>constructor\<close>, the name \<^verbatim>\<open>constructor\<close> is no key, and \<^verbatim>\<open>deleteTicket('constructor')\<close>
  returns \<^verbatim>\<open>true\<close> and writes a different document, in which the ticket has lost the
  dependency.
\<close>

theorem deleteTicket_constructor:
  "lookup ex_inherited ''constructor'' = None \<and>
   ''constructor'' \<notin> fst ` set (tickets ex_inherited) \<and>
   deleteTicket ''constructor'' ex_inherited = (Inr True, ex_inherited_stripped) \<and>
   ex_inherited_stripped \<noteq> ex_inherited"
proof -
  have a: "lookup ex_inherited ''constructor'' = None" by code_simp
  have b: "''constructor'' \<notin> fst ` set (tickets ex_inherited)"
    by (simp add: ex_inherited_def)
  have c: "deleteTicket ''constructor'' ex_inherited = (Inr True, ex_inherited_stripped)"
    by code_simp
  have d: "ex_inherited_stripped \<noteq> ex_inherited"
    by (simp add: ex_inherited_def ex_inherited_stripped_def ex_ticket_def)
  from a b c d show ?thesis by blast
qed

section \<open>Updating tickets\<close>

lemma lookup_putTicket: "lookup (putTicket k t storage) k' = (if k' = k then Some t else lookup storage k')"
  by (simp add: lookup_def putTicket_def update_conv')

subsection \<open>The loop on tickets\<close>

lemma applyStored_None:
  "applyStored now us st acc = (st', acc') \<Longrightarrow> lookup st k = None \<Longrightarrow> lookup st' k = None"
proof (induction us arbitrary: st acc)
  case Nil
  then show ?case by simp
next
  case (Cons u us)
  show ?case
  proof (cases "lookup st (ticketId u)")
    case None
    with Cons show ?thesis by simp
  next
    case (Some ticket)
    with Cons.prems(2) have ne: "k \<noteq> ticketId u" by auto
    from Cons.prems(1) Some
    have "applyStored now us (putTicket (ticketId u) (mergeTicket now ticket u) st)
            (acc @ [mergeTicket now ticket u]) = (st', acc')"
      by (simp add: Let_def)
    from Cons.IH[OF this] ne Cons.prems(2) show ?thesis by (simp add: lookup_putTicket)
  qed
qed

lemma keepsUncarried_refl: "keepsUncarried all k t t"
  by (simp add: keepsUncarried_def)

lemma keepsUncarried_trans:
  "keepsUncarried all k t t1 \<Longrightarrow> keepsUncarried all k t1 t2 \<Longrightarrow> keepsUncarried all k t t2"
  by (simp add: keepsUncarried_def)

lemma mergeTicket_keeps:
  assumes "u \<in> set all"
  shows "keepsUncarried all (ticketId u) t (mergeTicket now t u)"
proof -
  have c: "\<And>field. \<not> carries field all (ticketId u) \<Longrightarrow> field u = None"
    using assms by (auto simp: carries_def)
  show ?thesis
    unfolding keepsUncarried_def
    by (intro conjI impI) (simp_all add: mergeTicket_def c)
qed

lemma applyStored_Some:
  "applyStored now us st acc = (st', acc') \<Longrightarrow> set us \<subseteq> set all \<Longrightarrow> lookup st k = Some t \<Longrightarrow>
     \<exists>t'. lookup st' k = Some t' \<and> keepsUncarried all k t t' \<and>
       (if k \<in> ticketId ` set us then updatedAt t' = now else t' = t)"
proof (induction us arbitrary: st acc t)
  case Nil
  then show ?case by (simp add: keepsUncarried_refl)
next
  case (Cons u us)
  from Cons.prems(2) have sub: "set us \<subseteq> set all" and u: "u \<in> set all" by auto
  show ?case
  proof (cases "k = ticketId u")
    case False
    show ?thesis
    proof (cases "lookup st (ticketId u)")
      case None
      with Cons.prems(1) have "applyStored now us st acc = (st', acc')" by simp
      from Cons.IH[OF this sub Cons.prems(3)] False show ?thesis by auto
    next
      case (Some ticket)
      with Cons.prems(1)
      have a: "applyStored now us (putTicket (ticketId u) (mergeTicket now ticket u) st)
            (acc @ [mergeTicket now ticket u]) = (st', acc')"
        by (simp add: Let_def)
      have "lookup (putTicket (ticketId u) (mergeTicket now ticket u) st) k = Some t"
        using False Cons.prems(3) by (simp add: lookup_putTicket)
      from Cons.IH[OF a sub this] False show ?thesis by auto
    qed
  next
    case True
    with Cons.prems(3) have l: "lookup st (ticketId u) = Some t" by simp
    let ?m = "mergeTicket now t u"
    from Cons.prems(1) l
    have a: "applyStored now us (putTicket (ticketId u) ?m st) (acc @ [?m]) = (st', acc')"
      by (simp add: Let_def)
    have "lookup (putTicket (ticketId u) ?m st) k = Some ?m"
      using True by (simp add: lookup_putTicket)
    from Cons.IH[OF a sub this] obtain t' where t': "lookup st' k = Some t'"
       "keepsUncarried all k ?m t'"
       "if k \<in> ticketId ` set us then updatedAt t' = now else t' = ?m"
      by blast
    have m: "keepsUncarried all k t ?m" "updatedAt ?m = now"
      using mergeTicket_keeps[OF u] True by (simp_all add: mergeTicket_def)
    have 1: "keepsUncarried all k t t'" using m(1) t'(2) by (rule keepsUncarried_trans)
    have 2: "updatedAt t' = now"
      using t'(3) m(2) by (auto split: if_splits)
    from t'(1) 1 2 True show ?thesis by simp
  qed
qed

lemma applyStored_frame:
  "applyStored now us st acc = (st', acc') \<Longrightarrow> version st' = version st \<and> nextId st' = nextId st"
  by (induction us arbitrary: st acc) (auto simp: Let_def putTicket_def split: option.splits)

lemma applyStored_returned:
  "applyStored now us st acc = (st', acc') \<Longrightarrow> set us \<subseteq> set all \<Longrightarrow>
   \<forall>u\<in>set us. lookup st (ticketId u) \<noteq> None \<Longrightarrow>
     take (length acc) acc' = acc \<and>
     list_all2 (\<lambda>u t'. \<exists>t. lookup st (ticketId u) = Some t \<and>
                  keepsUncarried all (ticketId u) t t' \<and> updatedAt t' = now)
       us (drop (length acc) acc')"
proof (induction us arbitrary: st acc)
  case Nil
  then show ?case by simp
next
  case (Cons u us)
  from Cons.prems(2) have sub: "set us \<subseteq> set all" and u: "u \<in> set all" by auto
  from Cons.prems(3) obtain t where l: "lookup st (ticketId u) = Some t" by auto
  let ?m = "mergeTicket now t u"
  let ?st = "putTicket (ticketId u) ?m st"
  from Cons.prems(1) l
  have a: "applyStored now us ?st (acc @ [?m]) = (st', acc')"
    by (simp add: Let_def)
  have b: "\<forall>u\<in>set us. lookup ?st (ticketId u) \<noteq> None"
    using Cons.prems(3) by (simp add: lookup_putTicket)
  from Cons.IH[OF a sub b]
  have tk: "take (Suc (length acc)) acc' = acc @ [?m]"
    and la: "list_all2 (\<lambda>u t'. \<exists>t. lookup ?st (ticketId u) = Some t \<and>
                  keepsUncarried all (ticketId u) t t' \<and> updatedAt t' = now)
       us (drop (Suc (length acc)) acc')"
    by simp_all
  have m: "keepsUncarried all (ticketId u) t ?m" "updatedAt ?m = now"
    using mergeTicket_keeps[OF u] by (simp_all add: mergeTicket_def)
  have la': "list_all2 (\<lambda>u t'. \<exists>t. lookup st (ticketId u) = Some t \<and>
                  keepsUncarried all (ticketId u) t t' \<and> updatedAt t' = now)
       us (drop (Suc (length acc)) acc')"
    using la
  proof (rule list_all2_mono)
    fix v t'
    assume "\<exists>t. lookup ?st (ticketId v) = Some t \<and>
                  keepsUncarried all (ticketId v) t t' \<and> updatedAt t' = now"
    then obtain t1 where t1: "lookup ?st (ticketId v) = Some t1"
        "keepsUncarried all (ticketId v) t1 t'" "updatedAt t' = now"
      by blast
    show "\<exists>t. lookup st (ticketId v) = Some t \<and>
                  keepsUncarried all (ticketId v) t t' \<and> updatedAt t' = now"
    proof (cases "ticketId v = ticketId u")
      case True
      with t1(1) have "t1 = ?m" by (simp add: lookup_putTicket)
      with t1(2) m(1) True have "keepsUncarried all (ticketId v) t t'"
        by (auto intro: keepsUncarried_trans)
      with True l t1(3) show ?thesis by simp
    next
      case False
      with t1 show ?thesis by (auto simp: lookup_putTicket)
    qed
  qed
  from tk have len: "Suc (length acc) \<le> length acc'"
    by (metis length_append_singleton length_take min.cobounded1)
  from tk have hd: "acc' ! length acc = ?m"
    by (metis lessI nth_append_length nth_take)
  from tk have tk': "take (length acc) acc' = acc"
    by (metis append_eq_conv_conj length_take min.absorb2 take_take le_SucI len Suc_le_lessD less_imp_le_nat)
  have "drop (length acc) acc' = ?m # drop (Suc (length acc)) acc'"
    using len hd by (metis Cons_nth_drop_Suc Suc_le_lessD)
  with la' l m tk' show ?case by auto
qed

subsection \<open>The loop on objects, for updates of stored tickets\<close>

lemma asTicket_spreadTicket: "asTicket (spreadTicket t) = Some t"
  by (simp add: asTicket_def spreadTicket_def)

lemma asTickets_spread: "asTickets (map (\<lambda>(k, ticket). (k, spreadTicket ticket)) ts) = Some ts"
  by (induction ts) (auto simp: asTicket_spreadTicket)

lemma mergeUpdate_spreadTicket:
  "mergeUpdate now (spreadTicket t) (updateFields u) = spreadTicket (mergeTicket now t u)"
  by (simp add: mergeUpdate_def spreadTicket_def updateFields_def mergeTicket_def orElse_def
           split: option.splits)

lemma map_of_spread:
  "map_of (map (\<lambda>(k, ticket). (k, spreadTicket ticket)) ts) k = map_option spreadTicket (map_of ts k)"
  by (induction ts) auto

lemma spreadAt_stored:
  "lookup st k = Some t \<Longrightarrow> spreadAt (ticketsObject st) k = spreadTicket t"
  by (simp add: spreadAt_def ticketsObject_def lookup_def map_of_spread)

lemma spreadAt_absent:
  "lookup st k = None \<Longrightarrow> spreadAt (ticketsObject st) k = emptyObject"
  by (simp add: spreadAt_def ticketsObject_def lookup_def map_of_spread)

lemma update_map_spread:
  "AList.update k (spreadTicket v) (map (\<lambda>(a, b). (a, spreadTicket b)) xs)
     = map (\<lambda>(a, b). (a, spreadTicket b)) (AList.update k v xs)"
  by (induction xs) auto

lemma assignAt_stored:
  "lookup st k \<noteq> None \<Longrightarrow>
     assignAt (ticketsObject st) k (spreadTicket m) = ticketsObject (putTicket k m st)"
  by (simp add: assignAt_def ticketsObject_def lookup_def map_of_spread putTicket_def
        update_map_spread)

lemma updateApply_stored:
  "\<forall>u\<in>set us. lookup st (ticketId u) \<noteq> None \<Longrightarrow>
     updateApply now us (ticketsObject st) (map spreadTicket acc)
       = (ticketsObject (fst (applyStored now us st acc)),
          map spreadTicket (snd (applyStored now us st acc)))"
proof (induction us arbitrary: st acc)
  case Nil
  then show ?case by simp
next
  case (Cons u us)
  from Cons.prems obtain t where l: "lookup st (ticketId u) = Some t" by auto
  let ?m = "mergeTicket now t u"
  let ?st = "putTicket (ticketId u) ?m st"
  have b: "\<forall>u\<in>set us. lookup ?st (ticketId u) \<noteq> None"
    using Cons.prems by (simp add: lookup_putTicket)
  have s: "spreadAt (ticketsObject st) (ticketId u) = spreadTicket t"
    using l by (rule spreadAt_stored)
  have a: "assignAt (ticketsObject st) (ticketId u) (spreadTicket ?m) = ticketsObject ?st"
    using l by (simp add: assignAt_stored)
  have "updateApply now (u # us) (ticketsObject st) (map spreadTicket acc)
      = updateApply now us (ticketsObject ?st) (map spreadTicket (acc @ [?m]))"
    by (simp add: Let_def s a mergeUpdate_spreadTicket)
  also have "\<dots> = (ticketsObject (fst (applyStored now us ?st (acc @ [?m]))),
          map spreadTicket (snd (applyStored now us ?st (acc @ [?m]))))"
    by (rule Cons.IH[OF b])
  finally show ?case using l by (simp add: Let_def)
qed

lemma writeObjects_stored:
  "version st' = version st \<Longrightarrow> nextId st' = nextId st \<Longrightarrow>
     writeObjects st (ticketsObject st') = Storage st'"
  by (simp add: writeObjects_def ticketsObject_def asTickets_spread)

lemma updateTickets_success:
  assumes "updateTickets now updates disk = (Inr updatedTickets, written)"
  shows "updateExist updates disk = Inr () \<and> updateValidate updates disk = Inr () \<and>
    updateApply now updates (ticketsObject disk) [] = (obj, objs)
      \<longrightarrow> updatedTickets = objs \<and> written = writeObjects disk obj"
  using assms
  by (auto simp: updateTickets_def readData_def Let_def split: sum.splits prod.splits)

lemma updateTickets_validated:
  assumes "updateTickets now updates disk = (Inr updatedTickets, written)"
  shows "updateExist updates disk = Inr () \<and> updateValidate updates disk = Inr ()"
  using assms
  by (auto simp: updateTickets_def readData_def Let_def split: sum.splits prod.splits)

lemma updateTickets_stored:
  assumes "updateTickets now updates disk = (Inr updatedTickets, written)"
    and "\<forall>u\<in>set updates. lookup disk (ticketId u) \<noteq> None"
  shows "written = Storage (fst (applyStored now updates disk [])) \<and>
    updatedTickets = map spreadTicket (snd (applyStored now updates disk []))"
proof -
  obtain st' ts where ap: "applyStored now updates disk [] = (st', ts)"
    by (cases "applyStored now updates disk []")
  from updateApply_stored[OF assms(2), of now "[]"] ap
  have o: "updateApply now updates (ticketsObject disk) [] = (ticketsObject st', map spreadTicket ts)"
    by simp
  from applyStored_frame[OF ap] have "writeObjects disk (ticketsObject st') = Storage st'"
    by (simp add: writeObjects_stored)
  with updateTickets_success[OF assms(1), of "ticketsObject st'" "map spreadTicket ts"]
    updateTickets_validated[OF assms(1)] o ap
  show ?thesis by simp
qed

text \<open>
  C10.  A successful \<^verbatim>\<open>updateTickets\<close> whose updates all name keys of the document writes a
  ticket storage with the same keys, version and counter.  In every ticket, each field
  that none of the ticket's updates carries is unchanged: the ticket retains its \<^verbatim>\<open>id\<close>,
  \<^verbatim>\<open>createdAt\<close> and \<^verbatim>\<open>projects\<close> when the updates carry none of them, as
  \<^verbatim>\<open>TicketUpdateData\<close> declares, and \<^verbatim>\<open>ticketId\<close> is no field of the result.  \<^verbatim>\<open>updatedAt\<close>
  of every updated ticket is the one timestamp of the batch, and a ticket without an update
  is unchanged.  The tickets returned correspond to the updates in order, each with the
  uncarried fields of the stored ticket and the same timestamp.
\<close>

theorem updateTickets_frame:
  assumes "updateTickets now updates disk = (Inr updatedTickets, written)"
    and "\<forall>u\<in>set updates. lookup disk (ticketId u) \<noteq> None"
  shows "\<exists>disk' ts. written = Storage disk' \<and> updatedTickets = map spreadTicket ts \<and>
    version disk' = version disk \<and> nextId disk' = nextId disk \<and>
    (\<forall>k. lookup disk k = None \<longrightarrow> lookup disk' k = None) \<and>
    (\<forall>k t. lookup disk k = Some t \<longrightarrow>
       (\<exists>t'. lookup disk' k = Some t' \<and>
          (\<not> carries idU updates k \<longrightarrow> idT t' = idT t) \<and>
          (\<not> carries createdAtU updates k \<longrightarrow> createdAt t' = createdAt t) \<and>
          (\<not> carries projectsU updates k \<longrightarrow> projects t' = projects t) \<and>
          (\<not> carries titleU updates k \<longrightarrow> title t' = title t) \<and>
          (\<not> carries descriptionU updates k \<longrightarrow> description t' = description t) \<and>
          (\<not> carries blockedByU updates k \<longrightarrow> blockedBy t' = blockedBy t) \<and>
          (\<not> carries statusU updates k \<longrightarrow> status t' = status t) \<and>
          (if k \<in> ticketId ` set updates then updatedAt t' = now else t' = t))) \<and>
    list_all2 (\<lambda>u t'. \<exists>t. lookup disk (ticketId u) = Some t \<and>
                 keepsUncarried updates (ticketId u) t t' \<and> updatedAt t' = now)
       updates ts"
proof -
  obtain disk' ts where ap: "applyStored now updates disk [] = (disk', ts)"
    by (cases "applyStored now updates disk []")
  from updateTickets_stored[OF assms] ap
  have w: "written = Storage disk'" and r: "updatedTickets = map spreadTicket ts" by simp_all
  from applyStored_frame[OF ap]
  have f: "version disk' = version disk" "nextId disk' = nextId disk" by simp_all
  have 1: "\<forall>k. lookup disk k = None \<longrightarrow> lookup disk' k = None"
    using applyStored_None[OF ap] by blast
  have 2: "\<forall>k t. lookup disk k = Some t \<longrightarrow>
       (\<exists>t'. lookup disk' k = Some t' \<and>
          (\<not> carries idU updates k \<longrightarrow> idT t' = idT t) \<and>
          (\<not> carries createdAtU updates k \<longrightarrow> createdAt t' = createdAt t) \<and>
          (\<not> carries projectsU updates k \<longrightarrow> projects t' = projects t) \<and>
          (\<not> carries titleU updates k \<longrightarrow> title t' = title t) \<and>
          (\<not> carries descriptionU updates k \<longrightarrow> description t' = description t) \<and>
          (\<not> carries blockedByU updates k \<longrightarrow> blockedBy t' = blockedBy t) \<and>
          (\<not> carries statusU updates k \<longrightarrow> status t' = status t) \<and>
          (if k \<in> ticketId ` set updates then updatedAt t' = now else t' = t))"
  proof (intro allI impI)
    fix k t assume "lookup disk k = Some t"
    from applyStored_Some[OF ap subset_refl this]
    obtain t' where t': "lookup disk' k = Some t'" "keepsUncarried updates k t t'"
      "if k \<in> ticketId ` set updates then updatedAt t' = now else t' = t"
      by blast
    from t'(2) have "(\<not> carries idU updates k \<longrightarrow> idT t' = idT t) \<and>
          (\<not> carries createdAtU updates k \<longrightarrow> createdAt t' = createdAt t) \<and>
          (\<not> carries projectsU updates k \<longrightarrow> projects t' = projects t) \<and>
          (\<not> carries titleU updates k \<longrightarrow> title t' = title t) \<and>
          (\<not> carries descriptionU updates k \<longrightarrow> description t' = description t) \<and>
          (\<not> carries blockedByU updates k \<longrightarrow> blockedBy t' = blockedBy t) \<and>
          (\<not> carries statusU updates k \<longrightarrow> status t' = status t)"
      by (simp add: keepsUncarried_def)
    with t'(1,3) show "\<exists>t'. lookup disk' k = Some t' \<and>
          (\<not> carries idU updates k \<longrightarrow> idT t' = idT t) \<and>
          (\<not> carries createdAtU updates k \<longrightarrow> createdAt t' = createdAt t) \<and>
          (\<not> carries projectsU updates k \<longrightarrow> projects t' = projects t) \<and>
          (\<not> carries titleU updates k \<longrightarrow> title t' = title t) \<and>
          (\<not> carries descriptionU updates k \<longrightarrow> description t' = description t) \<and>
          (\<not> carries blockedByU updates k \<longrightarrow> blockedBy t' = blockedBy t) \<and>
          (\<not> carries statusU updates k \<longrightarrow> status t' = status t) \<and>
          (if k \<in> ticketId ` set updates then updatedAt t' = now else t' = t)"
      by (intro exI[of _ t']) simp
  qed
  from applyStored_returned[OF ap subset_refl assms(2)]
  have 3: "list_all2 (\<lambda>u t'. \<exists>t. lookup disk (ticketId u) = Some t \<and>
                 keepsUncarried updates (ticketId u) t t' \<and> updatedAt t' = now)
       updates ts"
    by simp
  from w r f 1 2 3 show ?thesis by blast
qed

theorem updateTickets_frame_witness:
  "snd (updateTickets ex_now ex_updates_title ex_chain) = Storage ex_chain_titled \<and>
   lookup ex_chain ''TICKET-0002'' \<noteq> None \<and>
   map_option idT (lookup ex_chain_titled ''TICKET-0002'') = Some ''TICKET-0002'' \<and>
   map_option createdAt (lookup ex_chain_titled ''TICKET-0002'') = Some ''2025-01-01T00:00:00.000Z'' \<and>
   map_option updatedAt (lookup ex_chain_titled ''TICKET-0002'') = Some ex_now \<and>
   lookup ex_chain_titled ''TICKET-0001'' = lookup ex_chain ''TICKET-0001''"
proof -
  have run: "updateTickets ex_now ex_updates_title ex_chain
      = (Inr [spreadTicket ex_titled], Storage ex_chain_titled)"
    by code_simp
  have l1: "lookup ex_chain ''TICKET-0001'' = Some (ex_ticket ''TICKET-0001'' [] Open)" by code_simp
  have l2: "lookup ex_chain ''TICKET-0002'' = Some (ex_ticket ''TICKET-0002'' [''TICKET-0001''] Open)"
    by code_simp
  have own: "\<forall>u\<in>set ex_updates_title. lookup ex_chain (ticketId u) \<noteq> None"
    using l2 by (simp add: ex_updates_title_def ex_update_def)
  have in2: "''TICKET-0002'' \<in> ticketId ` set ex_updates_title"
    by (simp add: ex_updates_title_def ex_update_def)
  have in1: "''TICKET-0001'' \<notin> ticketId ` set ex_updates_title"
    by (simp add: ex_updates_title_def ex_update_def)
  have nc: "\<not> carries idU ex_updates_title ''TICKET-0002''"
    "\<not> carries createdAtU ex_updates_title ''TICKET-0002''"
    by (simp_all add: carries_def ex_updates_title_def ex_update_def)
  from updateTickets_frame[OF run own]
  have frame: "\<forall>k t. lookup ex_chain k = Some t \<longrightarrow>
       (\<exists>t'. lookup ex_chain_titled k = Some t' \<and>
          (\<not> carries idU ex_updates_title k \<longrightarrow> idT t' = idT t) \<and>
          (\<not> carries createdAtU ex_updates_title k \<longrightarrow> createdAt t' = createdAt t) \<and>
          (if k \<in> ticketId ` set ex_updates_title then updatedAt t' = ex_now else t' = t))"
    by blast
  from frame[rule_format, OF l1] in1 l1
  have a: "lookup ex_chain_titled ''TICKET-0001'' = lookup ex_chain ''TICKET-0001''"
    by auto
  from frame[rule_format, OF l2] in2 nc
  have "\<exists>t'. lookup ex_chain_titled ''TICKET-0002'' = Some t' \<and>
      idT t' = idT (ex_ticket ''TICKET-0002'' [''TICKET-0001''] Open) \<and>
      createdAt t' = createdAt (ex_ticket ''TICKET-0002'' [''TICKET-0001''] Open) \<and>
      updatedAt t' = ex_now"
    by auto
  then have b: "map_option idT (lookup ex_chain_titled ''TICKET-0002'') = Some ''TICKET-0002''"
    and c: "map_option createdAt (lookup ex_chain_titled ''TICKET-0002'') = Some ''2025-01-01T00:00:00.000Z''"
    and d: "map_option updatedAt (lookup ex_chain_titled ''TICKET-0002'') = Some ex_now"
    by (auto simp: ex_ticket_def)
  from run l2 a b c d show ?thesis by simp
qed

text \<open>
  An update that carries \<^verbatim>\<open>id\<close>, \<^verbatim>\<open>projects\<close> and \<^verbatim>\<open>createdAt\<close> succeeds, and the ticket
  written under the key of the updated ticket has the three values of the update instead
  of its own.
\<close>

theorem updateTickets_replaces_identity:
  "lookup ex_chain ''TICKET-0002'' = Some (ex_ticket ''TICKET-0002'' [''TICKET-0001''] Open) \<and>
   updateTickets ex_now ex_updates_identity ex_chain
     = (Inr [spreadTicket ex_identity_replaced], Storage ex_chain_identity) \<and>
   lookup ex_chain_identity ''TICKET-0002'' = Some ex_identity_replaced \<and>
   idT ex_identity_replaced \<noteq> idT (ex_ticket ''TICKET-0002'' [''TICKET-0001''] Open) \<and>
   createdAt ex_identity_replaced \<noteq> createdAt (ex_ticket ''TICKET-0002'' [''TICKET-0001''] Open) \<and>
   projects ex_identity_replaced \<noteq> projects (ex_ticket ''TICKET-0002'' [''TICKET-0001''] Open)"
proof -
  have a: "lookup ex_chain ''TICKET-0002'' = Some (ex_ticket ''TICKET-0002'' [''TICKET-0001''] Open)"
    by code_simp
  have b: "updateTickets ex_now ex_updates_identity ex_chain
     = (Inr [spreadTicket ex_identity_replaced], Storage ex_chain_identity)"
    by code_simp
  have c: "lookup ex_chain_identity ''TICKET-0002'' = Some ex_identity_replaced"
    by code_simp
  have d: "idT ex_identity_replaced \<noteq> idT (ex_ticket ''TICKET-0002'' [''TICKET-0001''] Open)"
    "createdAt ex_identity_replaced \<noteq> createdAt (ex_ticket ''TICKET-0002'' [''TICKET-0001''] Open)"
    "projects ex_identity_replaced \<noteq> projects (ex_ticket ''TICKET-0002'' [''TICKET-0001''] Open)"
    by (simp_all add: ex_identity_replaced_def ex_ticket_def)
  from a b c d show ?thesis by blast
qed

section \<open>Atomic batches\<close>

lemma validateDependencies_fails:
  "(\<exists>d\<in>set bb. Some d = excl \<or> \<not> hasTicket storage d) \<Longrightarrow>
     \<exists>e. validateDependencies bb storage excl = Inl e"
  by (induction bb) auto

lemma createValidate_fails:
  "\<exists>item\<in>set items. \<exists>d\<in>set (blockedByOrEmpty item). \<not> hasTicket storage d \<Longrightarrow>
     \<exists>e. createValidate items storage = Inl e"
proof (induction items)
  case Nil
  then show ?case by simp
next
  case (Cons item items)
  show ?case
  proof (cases "validateDependencies (blockedByOrEmpty item) storage None")
    case (Inl e)
    then show ?thesis by simp
  next
    case (Inr u)
    have "\<not> (\<exists>d\<in>set (blockedByOrEmpty item). \<not> hasTicket storage d)"
    proof
      assume "\<exists>d\<in>set (blockedByOrEmpty item). \<not> hasTicket storage d"
      then have "\<exists>d\<in>set (blockedByOrEmpty item). Some d = None \<or> \<not> hasTicket storage d" by blast
      from validateDependencies_fails[OF this] Inr show False by simp
    qed
    with Cons.prems have "\<exists>item\<in>set items. \<exists>d\<in>set (blockedByOrEmpty item). \<not> hasTicket storage d"
      by auto
    from Cons.IH[OF this] Inr show ?thesis by simp
  qed
qed

lemma createLoop_fails:
  "createLoop now pre storage0 created0 = Inr (storage, created) \<Longrightarrow>
     checkCircularDependency (fst (generateId storage)) (blockedByOrEmpty item)
        (snd (generateId storage)) = Inl CircularDependency \<Longrightarrow>
     createLoop now (pre @ item # post) storage0 created0 = Inl CircularDependency"
proof (induction pre arbitrary: storage0 created0)
  case Nil
  then show ?case by (simp add: Let_def split_beta)
next
  case (Cons p pre)
  from Cons.prems(1) show ?case
    by (auto simp: Let_def split_beta split: sum.splits intro: Cons.IH[OF _ Cons.prems(2)])
qed

lemma updateExist_fails:
  "\<exists>u\<in>set us. \<not> hasTicket storage (ticketId u) \<Longrightarrow> \<exists>e. updateExist us storage = Inl e"
  by (induction us) auto

lemma updateValidate_fails:
  "\<exists>u\<in>set us. \<exists>bb. blockedByU u = Some bb \<and>
      (ticketId u \<in> set bb \<or> (\<exists>d\<in>set bb. \<not> hasTicket storage d) \<or>
       checkCircularDependency (ticketId u) bb storage = Inl CircularDependency) \<Longrightarrow>
   \<exists>e. updateValidate us storage = Inl e"
proof (induction us)
  case Nil
  then show ?case by simp
next
  case (Cons u us)
  show ?case
  proof (cases "\<exists>e. updateValidate [u] storage = Inl e")
    case True
    then show ?thesis by (auto split: option.splits sum.splits)
  next
    case False
    have nofail: "\<not> (\<exists>bb. blockedByU u = Some bb \<and>
      (ticketId u \<in> set bb \<or> (\<exists>d\<in>set bb. \<not> hasTicket storage d) \<or>
       checkCircularDependency (ticketId u) bb storage = Inl CircularDependency))"
    proof
      assume "\<exists>bb. blockedByU u = Some bb \<and>
      (ticketId u \<in> set bb \<or> (\<exists>d\<in>set bb. \<not> hasTicket storage d) \<or>
       checkCircularDependency (ticketId u) bb storage = Inl CircularDependency)"
      then obtain bb where bb: "blockedByU u = Some bb"
        and c: "ticketId u \<in> set bb \<or> (\<exists>d\<in>set bb. \<not> hasTicket storage d) \<or>
           checkCircularDependency (ticketId u) bb storage = Inl CircularDependency"
        by blast
      show False
      proof (cases "\<exists>d\<in>set bb. Some d = Some (ticketId u) \<or> \<not> hasTicket storage d")
        case True
        from validateDependencies_fails[OF this] bb False show False by auto
      next
        case F: False
        with c have "checkCircularDependency (ticketId u) bb storage = Inl CircularDependency" by auto
        with bb False show False by (auto split: sum.splits)
      qed
    qed
    with Cons.prems have "\<exists>u\<in>set us. \<exists>bb. blockedByU u = Some bb \<and>
      (ticketId u \<in> set bb \<or> (\<exists>d\<in>set bb. \<not> hasTicket storage d) \<or>
       checkCircularDependency (ticketId u) bb storage = Inl CircularDependency)"
      by auto
    from Cons.IH[OF this] obtain e where "updateValidate us storage = Inl e" by blast
    then show ?thesis by (auto split: option.splits sum.splits)
  qed
qed

lemma createTickets_error_unchanged:
  "createTickets now items disk = (Inl e, d) \<Longrightarrow> d = disk"
  by (auto simp: createTickets_def Let_def readData_def split: sum.splits prod.splits)

lemma updateTickets_error_unchanged:
  "updateTickets now updates disk = (Inl e, d) \<Longrightarrow> d = Storage disk"
  by (auto simp: updateTickets_def Let_def readData_def split: sum.splits prod.splits)

lemma createTickets_rejected:
  assumes "createRejected now items disk"
  shows "\<exists>e. createTickets now items disk = (Inl e, disk)"
proof (cases "createValidate items disk")
  case (Inl e)
  then show ?thesis by (simp add: createTickets_def readData_def)
next
  case (Inr u)
  have "\<not> (\<exists>item\<in>set items. \<exists>d\<in>set (blockedByOrEmpty item). \<not> hasTicket disk d)"
  proof
    assume "\<exists>item\<in>set items. \<exists>d\<in>set (blockedByOrEmpty item). \<not> hasTicket disk d"
    from createValidate_fails[OF this] Inr show False by simp
  qed
  with assms obtain pre item post storage created where
    "items = pre @ item # post" "createLoop now pre disk [] = Inr (storage, created)"
    "checkCircularDependency (fst (generateId storage)) (blockedByOrEmpty item)
            (snd (generateId storage)) = Inl CircularDependency"
    unfolding createRejected_def by blast
  with createLoop_fails[of now pre disk "[]" storage created item post]
  have "createLoop now items disk [] = Inl CircularDependency" by simp
  with Inr show ?thesis by (simp add: createTickets_def readData_def)
qed

lemma updateTickets_rejected:
  assumes "updateRejected updates disk"
  shows "\<exists>e. updateTickets now updates disk = (Inl e, Storage disk)"
proof (cases "updateExist updates disk")
  case (Inl e)
  then show ?thesis by (simp add: updateTickets_def readData_def)
next
  case (Inr u)
  have "\<not> (\<exists>u\<in>set updates. \<not> hasTicket disk (ticketId u))"
  proof
    assume "\<exists>u\<in>set updates. \<not> hasTicket disk (ticketId u)"
    from updateExist_fails[OF this] Inr show False by simp
  qed
  with assms have "\<exists>u\<in>set updates. \<exists>bb. blockedByU u = Some bb \<and>
      (ticketId u \<in> set bb \<or> (\<exists>d\<in>set bb. \<not> hasTicket disk d) \<or>
       checkCircularDependency (ticketId u) bb disk = Inl CircularDependency)"
    unfolding updateRejected_def by blast
  from updateValidate_fails[OF this] obtain e where "updateValidate updates disk = Inl e" by blast
  with Inr show ?thesis by (simp add: updateTickets_def readData_def)
qed

text \<open>
  C2.  When an item of the batch fails the existence test of a dependency, the
  self-dependency test, the existence test of the updated ticket or the cycle check,
  \<^verbatim>\<open>createTickets\<close> and \<^verbatim>\<open>updateTickets\<close> throw and the document on disk is the one from
  before the call; and whenever they throw, nothing has been written.
\<close>

theorem batch_atomic:
  "(createRejected now items disk \<longrightarrow> (\<exists>e. createTickets now items disk = (Inl e, disk))) \<and>
   (updateRejected updates disk \<longrightarrow> (\<exists>e. updateTickets now updates disk = (Inl e, Storage disk))) \<and>
   (\<forall>e d. createTickets now items disk = (Inl e, d) \<longrightarrow> d = disk) \<and>
   (\<forall>e d. updateTickets now updates disk = (Inl e, d) \<longrightarrow> d = Storage disk)"
  using createTickets_rejected updateTickets_rejected
    createTickets_error_unchanged updateTickets_error_unchanged
  by blast

theorem batch_atomic_witness:
  "createRejected ex_now ex_items_missing ex_chain \<and>
   updateRejected ex_updates_missing ex_chain \<and>
   (\<exists>e. createTickets ex_now ex_items_missing ex_chain = (Inl e, ex_chain)) \<and>
   (\<exists>e. updateTickets ex_now ex_updates_missing ex_chain = (Inl e, Storage ex_chain))"
proof -
  have m: "\<not> hasTicket ex_chain ''TICKET-0009''" by code_simp
  have c: "createRejected ex_now ex_items_missing ex_chain"
    using m by (simp add: createRejected_def ex_items_missing_def blockedByOrEmpty_def)
  have u: "updateRejected ex_updates_missing ex_chain"
    using m by (simp add: updateRejected_def ex_updates_missing_def ex_update_def)
  from c u batch_atomic[of ex_now ex_items_missing ex_chain ex_updates_missing]
  show ?thesis by blast
qed

section \<open>Migration check on a current document\<close>

text \<open>A document with a non-empty \<^verbatim>\<open>version\<close> field is detected as that version.\<close>

lemma detectDataVersion_version_field:
  "map_of kvs ''version'' = Some (JStr v) \<Longrightarrow> v \<noteq> [] \<Longrightarrow> detectDataVersion (JObj kvs) = Some (JStr v)"
  by (simp add: detectDataVersion_def)

text \<open>
  C8.  When the version detected in the data file is the current version of the
  application, \<^verbatim>\<open>runMigrationIfNeeded\<close> returns and the file system is what it was: no
  step of the catalog has run, the data file is not written and no backup exists that did
  not exist before.
\<close>

theorem runMigrationIfNeeded_current:
  assumes "files dataFile = Some text" and "parse text = Some rawData"
    and "detectDataVersion rawData = Some (JStr currentAppVersion)"
  shows "runMigrationIfNeeded parse availableMigrations dataFile files = (Returned, files)"
  using assms by (simp add: runMigrationIfNeeded_def readRawData_def)

theorem runMigrationIfNeeded_current_witness:
  "runMigrationIfNeeded ex_parse ex_catalog ''data/tickets.json'' ex_files = (Returned, ex_files) \<and>
   ex_files ''data/tickets.0.1.0.json'' = None"
proof -
  have f: "ex_files ''data/tickets.json'' = Some ''current''"
    by (simp add: ex_files_def)
  have p: "ex_parse ''current''
      = Some (JObj [(''version'', JStr ''0.2.0''), (''tickets'', JObj []), (''nextId'', JNum 1)])"
    by (simp add: ex_parse_def)
  have d: "detectDataVersion (JObj [(''version'', JStr ''0.2.0''), (''tickets'', JObj []), (''nextId'', JNum 1)])
      = Some (JStr currentAppVersion)"
    by (simp add: detectDataVersion_def currentAppVersion_def)
  have b: "ex_files ''data/tickets.0.1.0.json'' = None"
    by (simp add: ex_files_def)
  from runMigrationIfNeeded_current[where files = ex_files and dataFile = "''data/tickets.json''"
      and parse = ex_parse and availableMigrations = ex_catalog, OF f p d] b
  show ?thesis by simp
qed

section \<open>Self-reference\<close>

lemma set_update_subset: "set (AList.update k v xs) \<subseteq> insert (k, v) (set xs)"
  by (induction xs) auto

lemma selfFree_putTicket:
  assumes "selfFree storage" and "idT t = k" and "idT t \<notin> set (blockedBy t)"
  shows "selfFree (putTicket k t storage)"
proof -
  have "set (tickets (putTicket k t storage)) \<subseteq> insert (k, t) (set (tickets storage))"
    by (simp add: putTicket_def set_update_subset)
  with assms show ?thesis
    unfolding selfFree_def keysAreIds_def selfBlocked_def by fastforce
qed

lemma selfFree_generateId: "selfFree (snd (generateId storage)) = selfFree storage"
  by (simp add: generateId_def selfFree_def keysAreIds_def selfBlocked_def)

lemma checkCircularDependency_self:
  assumes "i \<in> set bb"
  shows "checkCircularDependency i bb storage = Inl CircularDependency"
proof -
  have "(i, i) \<in> dep_edges i bb storage"
    using assms by (simp add: dep_edges_def deps_of_def)
  then have "cycle_reachable (dep_edges i bb storage) i"
    unfolding cycle_reachable_def by blast
  then show ?thesis
    by (simp add: checkCircularDependency_def hasCycle_correct)
qed

lemma createTicket_selfFree:
  assumes "createTicket now ttl descr projs bb disk = (Inr t, d)" and "selfFree disk"
  shows "selfFree d"
proof -
  let ?i = "fst (generateId disk)" and ?s = "snd (generateId disk)"
  let ?t = "\<lparr>idT = ?i, title = ttl, description = descr, projects = projs,
                         blockedBy = bb, createdAt = now, updatedAt = now, status = Open\<rparr>"
  from assms(1) have c: "checkCircularDependency ?i bb ?s \<noteq> Inl CircularDependency"
    and d: "d = putTicket ?i ?t ?s"
    by (auto simp: createTicket_def readData_def writeData_def Let_def split_beta
             split: sum.splits)
  from c checkCircularDependency_self have "?i \<notin> set bb" by blast
  with assms(2) show ?thesis
    unfolding d by (intro selfFree_putTicket) (simp_all add: selfFree_generateId)
qed

lemma createLoop_selfFree:
  "createLoop now items storage created = Inr (storage', created') \<Longrightarrow> selfFree storage \<Longrightarrow>
     selfFree storage'"
proof (induction items arbitrary: storage created)
  case Nil
  then show ?case by simp
next
  case (Cons item items)
  let ?i = "fst (generateId storage)" and ?s = "snd (generateId storage)"
  let ?bb = "blockedByOrEmpty item"
  let ?t = "\<lparr>idT = ?i, title = titleC item, description = descriptionC item,
                    projects = projectsC item, blockedBy = ?bb,
                    createdAt = now, updatedAt = now, status = Open\<rparr>"
  from Cons.prems(1) have c: "checkCircularDependency ?i ?bb ?s \<noteq> Inl CircularDependency"
    and r: "createLoop now items (putTicket ?i ?t ?s) (created @ [?t]) = Inr (storage', created')"
    by (auto simp: Let_def split_beta split: sum.splits)
  from c checkCircularDependency_self have "?i \<notin> set ?bb" by blast
  with Cons.prems(2) have "selfFree (putTicket ?i ?t ?s)"
    by (intro selfFree_putTicket) (simp_all add: selfFree_generateId)
  from Cons.IH[OF r this] show ?case .
qed

lemma createTickets_selfFree:
  assumes "createTickets now items disk = (Inr ts, d)" and "selfFree disk"
  shows "selfFree d"
proof -
  from assms(1) have "createLoop now items disk [] = Inr (d, ts)"
    by (auto simp: createTickets_def readData_def writeData_def split: sum.splits prod.splits)
  from createLoop_selfFree[OF this assms(2)] show ?thesis .
qed

lemma validateDependencies_not_excluded:
  "validateDependencies bb storage (Some k) = Inr x \<Longrightarrow> k \<notin> set bb"
  by (induction bb) (auto split: if_splits)

lemma updateValidate_not_self:
  "updateValidate us storage = Inr x \<Longrightarrow>
     \<forall>u\<in>set us. \<forall>bb. blockedByU u = Some bb \<longrightarrow> ticketId u \<notin> set bb"
  by (induction us) (auto split: option.splits sum.splits dest: validateDependencies_not_excluded)

lemma applyStored_selfFree:
  "applyStored now us storage acc = (storage', acc') \<Longrightarrow> selfFree storage \<Longrightarrow>
     \<forall>u\<in>set us. idU u = None \<Longrightarrow>
     \<forall>u\<in>set us. \<forall>bb. blockedByU u = Some bb \<longrightarrow> ticketId u \<notin> set bb \<Longrightarrow> selfFree storage'"
proof (induction us arbitrary: storage acc)
  case Nil
  then show ?case by simp
next
  case (Cons u us)
  show ?case
  proof (cases "lookup storage (ticketId u)")
    case None
    with Cons show ?thesis by simp
  next
    case (Some t)
    let ?m = "mergeTicket now t u"
    from Some have "(ticketId u, t) \<in> set (tickets storage)"
      by (simp add: lookup_def map_of_SomeD)
    with Cons.prems(2) have t: "idT t = ticketId u" "idT t \<notin> set (blockedBy t)"
      unfolding selfFree_def keysAreIds_def selfBlocked_def by auto
    from Cons.prems(3) have i: "idU u = None" by simp
    have "idT ?m = ticketId u" using t(1) i by (simp add: mergeTicket_def)
    moreover have "idT ?m \<notin> set (blockedBy ?m)"
      using t i Cons.prems(4) by (auto simp: mergeTicket_def split: option.splits)
    ultimately have s: "selfFree (putTicket (ticketId u) ?m storage)"
      using Cons.prems(2) by (intro selfFree_putTicket)
    from Cons.prems(1) Some have "applyStored now us (putTicket (ticketId u) ?m storage) (acc @ [?m]) = (storage', acc')"
      by (simp add: Let_def)
    from Cons.IH[OF this s] Cons.prems(3,4) show ?thesis by simp
  qed
qed

lemma updateTickets_selfFree:
  assumes "updateTickets now updates disk = (Inr ts, written)" and "selfFree disk"
    and "\<forall>u\<in>set updates. lookup disk (ticketId u) \<noteq> None \<and> idU u = None"
  shows "\<exists>d. written = Storage d \<and> selfFree d"
proof -
  obtain d rs where ap: "applyStored now updates disk [] = (d, rs)"
    by (cases "applyStored now updates disk []")
  from assms(3) have own: "\<forall>u\<in>set updates. lookup disk (ticketId u) \<noteq> None"
    and noid: "\<forall>u\<in>set updates. idU u = None"
    by simp_all
  from updateTickets_stored[OF assms(1) own] ap have w: "written = Storage d" by simp
  from updateTickets_validated[OF assms(1)]
  have v: "updateValidate updates disk = Inr ()" by simp
  from applyStored_selfFree[OF ap assms(2) noid updateValidate_not_self[OF v]] w
  show ?thesis by simp
qed

lemma deleteTicket_entries:
  assumes "(k, t') \<in> set (AList.delete tid (map (\<lambda>(k, ticket). (k, stripDependency tid ticket)) xs))"
  shows "\<exists>t. (k, t) \<in> set xs \<and> t' = stripDependency tid t"
  using assms by (induction xs) (auto simp: AList.delete_eq split: if_splits)

lemma deleteTicket_selfFree:
  assumes "deleteTicket tid disk = (Inr b, d)" and "selfFree disk"
  shows "selfFree d"
proof -
  from assms(1) have d: "tickets d = AList.delete tid
      (map (\<lambda>(k, ticket). (k, stripDependency tid ticket)) (tickets disk))"
    by (auto simp: deleteTicket_def readData_def writeData_def Let_def split: if_splits)
  have "idT t' = k \<and> idT t' \<notin> set (blockedBy t')" if "(k, t') \<in> set (tickets d)" for k t'
  proof -
    from that d deleteTicket_entries[of k t' tid "tickets disk"]
    obtain t where t: "(k, t) \<in> set (tickets disk)" "t' = stripDependency tid t" by auto
    from t(1) assms(2) have "idT t = k" "idT t \<notin> set (blockedBy t)"
      unfolding selfFree_def keysAreIds_def selfBlocked_def by auto
    then show ?thesis by (simp add: t(2) stripDependency_def)
  qed
  then show ?thesis
    unfolding selfFree_def keysAreIds_def selfBlocked_def by blast
qed

lemma createTicket_rejects_self:
  assumes "fst (generateId disk) \<in> set bb"
  shows "\<exists>e. createTicket now ttl descr projs bb disk = (Inl e, disk)"
  using checkCircularDependency_self[OF assms, of "snd (generateId disk)"]
  by (auto simp: createTicket_def readData_def Let_def split_beta split: sum.splits)

lemma updateValidate_append:
  "updateValidate pre storage = Inr x \<Longrightarrow>
     updateValidate (pre @ us) storage = updateValidate us storage"
  by (induction pre) (auto split: option.splits sum.splits)

lemma convert_fold_subset:
  "set (foldl (\<lambda>newTickets (i, legacyTicket). AList.update i (f legacyTicket) newTickets) acc xs)
     \<subseteq> set acc \<union> (\<lambda>(i, legacyTicket). (i, f legacyTicket)) ` set xs"
proof (induction xs arbitrary: acc)
  case Nil
  then show ?case by simp
next
  case (Cons x xs)
  obtain i lt where x: "x = (i, lt)" by (cases x)
  have "set (foldl (\<lambda>newTickets (i, legacyTicket). AList.update i (f legacyTicket) newTickets)
              (AList.update i (f lt) acc) xs)
      \<subseteq> set (AList.update i (f lt) acc) \<union> (\<lambda>(i, legacyTicket). (i, f legacyTicket)) ` set xs"
    by (rule Cons.IH)
  also have "\<dots> \<subseteq> insert (i, f lt) (set acc) \<union> (\<lambda>(i, legacyTicket). (i, f legacyTicket)) ` set xs"
    using set_update_subset[of i "f lt" acc] by blast
  finally show ?case by (auto simp: x)
qed

lemma convertStorage_tickets:
  assumes "(k, t) \<in> set (tickets (convertStorage legacyData))"
  shows "\<exists>lt. (k, lt) \<in> set (ticketsL legacyData) \<and> idT t = idL lt \<and> blockedBy t = dependencies lt"
proof -
  from assms convert_fold_subset[of renameDependencies "[]" "ticketsL legacyData"]
  obtain lt where "(k, lt) \<in> set (ticketsL legacyData)" "t = renameDependencies lt"
    by (auto simp: convertStorage_def)
  then show ?thesis by (auto simp: renameDependencies_def)
qed

lemma convert_fold_lookup:
  "map_of (foldl (\<lambda>newTickets (i, legacyTicket). AList.update i (f legacyTicket) newTickets) acc xs) k
     = (case map_of (rev xs) k of Some lt \<Rightarrow> Some (f lt) | None \<Rightarrow> map_of acc k)"
proof (induction xs arbitrary: acc)
  case Nil
  then show ?case by simp
next
  case (Cons x xs)
  obtain i lt where x: "x = (i, lt)" by (cases x)
  show ?case
    by (simp add: x Cons.IH update_conv' map_add_def split: option.splits)
qed

lemma map_of_rev_distinct: "distinct (map fst xs) \<Longrightarrow> map_of (rev xs) = map_of xs"
proof (induction xs)
  case Nil
  then show ?case by simp
next
  case (Cons x xs)
  obtain k v where x: "x = (k, v)" by (cases x)
  from Cons.prems have "map_of xs k = None"
    by (simp add: x map_of_eq_None_iff)
  with Cons show ?case
    by (auto simp: x map_add_def fun_eq_iff split: option.splits)
qed

lemma convertStorage_lookup:
  assumes "distinct (map fst (ticketsL legacyData))" and "(k, lt) \<in> set (ticketsL legacyData)"
  shows "lookup (convertStorage legacyData) k = Some (renameDependencies lt)"
proof -
  from assms have "map_of (ticketsL legacyData) k = Some lt" by simp
  with assms(1) have "map_of (rev (ticketsL legacyData)) k = Some lt"
    by (simp add: map_of_rev_distinct)
  then show ?thesis
    by (simp add: lookup_def convertStorage_def convert_fold_lookup)
qed

lemma validateDependencies_self_first:
  "\<forall>d\<in>set bpre. d \<noteq> k \<and> hasTicket storage d \<Longrightarrow>
     validateDependencies (bpre @ k # bpost) storage (Some k) = Inl SelfDependency"
  by (induction bpre) auto

lemma updateTickets_self_first:
  assumes "updateExist (pre @ u # post) disk = Inr ()" and "updateValidate pre disk = Inr ()"
    and "blockedByU u = Some (bpre @ ticketId u # bpost)"
    and "\<forall>d\<in>set bpre. d \<noteq> ticketId u \<and> hasTicket disk d"
  shows "updateTickets now (pre @ u # post) disk = (Inl SelfDependency, Storage disk)"
proof -
  have "updateValidate (pre @ u # post) disk = updateValidate (u # post) disk"
    using assms(2) by (rule updateValidate_append)
  also have "\<dots> = Inl SelfDependency"
    using assms(3) validateDependencies_self_first[OF assms(4), of bpost] by simp
  finally show ?thesis
    using assms(1) by (simp add: updateTickets_def readData_def)
qed

lemma updateRejected_self:
  "\<exists>u\<in>set updates. \<exists>bb. blockedByU u = Some bb \<and> ticketId u \<in> set bb \<Longrightarrow> updateRejected updates disk"
  unfolding updateRejected_def by blast

lemma convertStorage_self:
  assumes "selfBlocked (convertStorage legacyData)"
  shows "selfDependent legacyData"
proof -
  from assms obtain k t where kt: "(k, t) \<in> set (tickets (convertStorage legacyData))"
    "idT t \<in> set (blockedBy t)"
    unfolding selfBlocked_def by auto
  from convertStorage_tickets[OF kt(1)] kt(2) show ?thesis
    unfolding selfDependent_def by force
qed

text \<open>
  An update that carries the \<^verbatim>\<open>id\<close> of another ticket and is blocked by that ticket passes
  the validation, which compares the dependencies with the \<^verbatim>\<open>ticketId\<close> of the update; the
  ticket written has its \<^verbatim>\<open>id\<close> in its \<^verbatim>\<open>blockedBy\<close>.
\<close>

lemma updateTickets_carried_id:
  "selfFree ex_chain \<and>
   updateTickets ex_now
       [(ex_update ''TICKET-0002'')\<lparr>idU := Some ''TICKET-0001'', blockedByU := Some [''TICKET-0001'']\<rparr>]
       ex_chain
     = (Inr [spreadTicket ((ex_ticket ''TICKET-0001'' [''TICKET-0001''] Open)\<lparr>updatedAt := ex_now\<rparr>)],
        Storage (ex_chain\<lparr>tickets :=
          [(''TICKET-0001'', ex_ticket ''TICKET-0001'' [] Open),
           (''TICKET-0002'', (ex_ticket ''TICKET-0001'' [''TICKET-0001''] Open)\<lparr>updatedAt := ex_now\<rparr>)]\<rparr>))"
proof -
  have 1: "selfFree ex_chain" by code_simp
  have 2: "updateTickets ex_now
       [(ex_update ''TICKET-0002'')\<lparr>idU := Some ''TICKET-0001'', blockedByU := Some [''TICKET-0001'']\<rparr>]
       ex_chain
     = (Inr [spreadTicket ((ex_ticket ''TICKET-0001'' [''TICKET-0001''] Open)\<lparr>updatedAt := ex_now\<rparr>)],
        Storage (ex_chain\<lparr>tickets :=
          [(''TICKET-0001'', ex_ticket ''TICKET-0001'' [] Open),
           (''TICKET-0002'', (ex_ticket ''TICKET-0001'' [''TICKET-0001''] Open)\<lparr>updatedAt := ex_now\<rparr>)]\<rparr>))"
    by code_simp
  from 1 2 show ?thesis by simp
qed

text \<open>
  C6, as the code has it.  From a document free of self-references, every successful
  \<^verbatim>\<open>createTicket\<close>, \<^verbatim>\<open>createTickets\<close> and \<^verbatim>\<open>deleteTicket\<close> writes a document free of
  self-references, and so does every successful \<^verbatim>\<open>updateTickets\<close> whose updates name keys
  of the document and carry no \<^verbatim>\<open>id\<close>.  \<^verbatim>\<open>createTicket\<close> rejects a \<^verbatim>\<open>blockedBy\<close> that
  contains the id the ticket would get; \<^verbatim>\<open>updateTickets\<close> rejects a batch in which the
  \<^verbatim>\<open>blockedBy\<close> of an update contains the \<^verbatim>\<open>ticketId\<close> of that update, and the error is the
  self-dependency error when that is the first check of the batch to fail.  The migration
  copies \<^verbatim>\<open>dependencies\<close> to \<^verbatim>\<open>blockedBy\<close> as it is: a migrated ticket has its id in
  \<^verbatim>\<open>blockedBy\<close> only when the legacy ticket had its id in \<^verbatim>\<open>dependencies\<close>.
\<close>

theorem self_reference_amended:
  "(selfFree disk \<longrightarrow>
      (\<forall>t d. createTicket now ttl descr projs bb disk = (Inr t, d) \<longrightarrow> selfFree d) \<and>
      (\<forall>ts d. createTickets now items disk = (Inr ts, d) \<longrightarrow> selfFree d) \<and>
      ((\<forall>u\<in>set updates. lookup disk (ticketId u) \<noteq> None \<and> idU u = None) \<longrightarrow>
         (\<forall>ts written. updateTickets now updates disk = (Inr ts, written) \<longrightarrow>
            (\<exists>d. written = Storage d \<and> selfFree d))) \<and>
      (\<forall>b d. deleteTicket tid disk = (Inr b, d) \<longrightarrow> selfFree d)) \<and>
   (fst (generateId disk) \<in> set bb \<longrightarrow>
      (\<exists>e. createTicket now ttl descr projs bb disk = (Inl e, disk))) \<and>
   ((\<exists>u\<in>set updates. \<exists>bb'. blockedByU u = Some bb' \<and> ticketId u \<in> set bb') \<longrightarrow>
      (\<exists>e. updateTickets now updates disk = (Inl e, Storage disk))) \<and>
   (updateExist (pre @ u # post) disk = Inr () \<and> updateValidate pre disk = Inr () \<and>
    blockedByU u = Some (bpre @ ticketId u # bpost) \<and>
    (\<forall>d\<in>set bpre. d \<noteq> ticketId u \<and> hasTicket disk d) \<longrightarrow>
      updateTickets now (pre @ u # post) disk = (Inl SelfDependency, Storage disk)) \<and>
   (\<forall>(k, t)\<in>set (tickets (convertStorage legacyData)).
      \<exists>lt. (k, lt) \<in> set (ticketsL legacyData) \<and> idT t = idL lt \<and> blockedBy t = dependencies lt) \<and>
   (selfBlocked (convertStorage legacyData) \<longrightarrow> selfDependent legacyData)"
proof (intro conjI impI allI)
  fix t d assume "selfFree disk" "createTicket now ttl descr projs bb disk = (Inr t, d)"
  then show "selfFree d" using createTicket_selfFree by blast
next
  fix ts d assume "selfFree disk" "createTickets now items disk = (Inr ts, d)"
  then show "selfFree d" using createTickets_selfFree by blast
next
  fix ts written
  assume "selfFree disk" "\<forall>u\<in>set updates. lookup disk (ticketId u) \<noteq> None \<and> idU u = None"
    "updateTickets now updates disk = (Inr ts, written)"
  then show "\<exists>d. written = Storage d \<and> selfFree d"
    using updateTickets_selfFree by blast
next
  fix b d assume "selfFree disk" "deleteTicket tid disk = (Inr b, d)"
  then show "selfFree d" using deleteTicket_selfFree by blast
next
  assume "fst (generateId disk) \<in> set bb"
  then show "\<exists>e. createTicket now ttl descr projs bb disk = (Inl e, disk)"
    by (rule createTicket_rejects_self)
next
  assume "\<exists>u\<in>set updates. \<exists>bb'. blockedByU u = Some bb' \<and> ticketId u \<in> set bb'"
  then have "updateRejected updates disk" by (rule updateRejected_self)
  then show "\<exists>e. updateTickets now updates disk = (Inl e, Storage disk)"
    by (rule updateTickets_rejected)
next
  assume a: "updateExist (pre @ u # post) disk = Inr () \<and> updateValidate pre disk = Inr () \<and>
    blockedByU u = Some (bpre @ ticketId u # bpost) \<and>
    (\<forall>d\<in>set bpre. d \<noteq> ticketId u \<and> hasTicket disk d)"
  show "updateTickets now (pre @ u # post) disk = (Inl SelfDependency, Storage disk)"
    by (rule updateTickets_self_first[where bpre = bpre and bpost = bpost]) (use a in simp_all)
next
  show "\<forall>(k, t)\<in>set (tickets (convertStorage legacyData)).
      \<exists>lt. (k, lt) \<in> set (ticketsL legacyData) \<and> idT t = idL lt \<and> blockedBy t = dependencies lt"
    using convertStorage_tickets by blast
next
  assume "selfBlocked (convertStorage legacyData)"
  then show "selfDependent legacyData" by (rule convertStorage_self)
qed

theorem self_reference_amended_witness:
  "selfFree ex_chain \<and> selfFree (snd (deleteTicket ''TICKET-0001'' ex_chain)) \<and>
   snd (updateTickets ex_now ex_updates_title ex_chain) = Storage ex_chain_titled \<and>
   selfFree ex_chain_titled \<and>
   updateTickets ex_now ex_updates_self ex_chain = (Inl SelfDependency, Storage ex_chain)"
proof -
  have s: "selfFree ex_chain" by code_simp
  have "fst (deleteTicket ''TICKET-0001'' ex_chain) = Inr True" by code_simp
  then have d: "deleteTicket ''TICKET-0001'' ex_chain = (Inr True, snd (deleteTicket ''TICKET-0001'' ex_chain))"
    by (metis prod.collapse)
  let ?u = "(ex_update ''TICKET-0002'')\<lparr>blockedByU := Some [''TICKET-0002'']\<rparr>"
  have l: "updateExist ([] @ ?u # []) ex_chain = Inr () \<and> updateValidate [] ex_chain = Inr () \<and>
      blockedByU ?u = Some ([] @ ticketId ?u # []) \<and>
      (\<forall>d\<in>set []. d \<noteq> ticketId ?u \<and> hasTicket ex_chain d)"
    by (simp add: lookup_def hasTicket_def ex_chain_def ex_update_def)
  have run: "updateTickets ex_now ex_updates_title ex_chain
      = (Inr [spreadTicket ex_titled], Storage ex_chain_titled)"
    by code_simp
  have own: "\<forall>u\<in>set ex_updates_title. lookup ex_chain (ticketId u) \<noteq> None \<and> idU u = None"
    by (simp add: ex_updates_title_def ex_update_def lookup_def ex_chain_def)
  note T = self_reference_amended[where disk = ex_chain and tid = "''TICKET-0001''" and u = ?u
      and pre = "[]" and post = "[]" and bpre = "[]" and bpost = "[]" and now = ex_now
      and updates = ex_updates_title]
  from T[THEN conjunct1, THEN mp, OF s, THEN conjunct2, THEN conjunct2, THEN conjunct2,
      THEN spec, THEN spec, THEN mp, OF d]
  have 1: "selfFree (snd (deleteTicket ''TICKET-0001'' ex_chain))" .
  from T[THEN conjunct1, THEN mp, OF s, THEN conjunct2, THEN conjunct2, THEN conjunct1,
      THEN mp, OF own, THEN spec, THEN spec, THEN mp, OF run]
  have 3: "selfFree ex_chain_titled" by simp
  from T[THEN conjunct2, THEN conjunct2, THEN conjunct2, THEN conjunct1, THEN mp, OF l]
  have 2: "updateTickets ex_now [?u] ex_chain = (Inl SelfDependency, Storage ex_chain)" by simp
  from s 1 2 3 run show ?thesis by (simp add: ex_updates_self_def)
qed

text \<open>
  The migration keeps a self-reference of the legacy input: the only ticket of the legacy
  document depends on itself, and the document that the migration writes has the ticket
  blocked by itself.
\<close>

theorem migration_keeps_self_reference:
  "migrateFrom0_1_0To0_2_0 ex_parseLegacy ex_stringify ''data/tickets.json'' ex_legacy_files
     = (Done, ex_legacy_files(''data/tickets.0.1.0.json'' \<mapsto> ''legacy'',
                              ''data/tickets.json'' \<mapsto> ex_stringify (convertStorage ex_legacy_self))) \<and>
   lookup (convertStorage ex_legacy_self) ''TICKET-0001''
     = Some (ex_ticket ''TICKET-0001'' [''TICKET-0001''] Open) \<and>
   selfBlocked (convertStorage ex_legacy_self)"
proof -
  have b: "replaceFirst ''.json'' ''.0.1.0.json'' ''data/tickets.json'' = ''data/tickets.0.1.0.json''"
    by simp
  have 1: "migrateFrom0_1_0To0_2_0 ex_parseLegacy ex_stringify ''data/tickets.json'' ex_legacy_files
     = (Done, ex_legacy_files(''data/tickets.0.1.0.json'' \<mapsto> ''legacy'',
                              ''data/tickets.json'' \<mapsto> ex_stringify (convertStorage ex_legacy_self)))"
    unfolding migrateFrom0_1_0To0_2_0_def b
    by (simp add: ex_legacy_files_def ex_parseLegacy_def)
  have 2: "lookup (convertStorage ex_legacy_self) ''TICKET-0001''
     = Some (ex_ticket ''TICKET-0001'' [''TICKET-0001''] Open)"
    by code_simp
  have 3: "selfBlocked (convertStorage ex_legacy_self)" by code_simp
  from 1 2 3 show ?thesis by simp
qed

section \<open>Research tree\<close>

lemma foldr_max_le: "(\<And>x. x \<in> set xs \<Longrightarrow> f x \<le> b) \<Longrightarrow> foldr max (map f xs) 0 \<le> (b::nat)"
  by (induction xs) auto

lemma forestHeight_map_Node:
  "forestHeight (map (\<lambda>d. Node (i d) (t d) (sub d)) ds) = foldr max (map (\<lambda>d. Suc (forestHeight (sub d))) ds) 0"
  by (induction ds) (auto simp: forestHeight_def)

lemma buildResearchTree_height:
  "forestHeight (buildResearchTree tid storage visitedIds)
     \<le> card (insert tid (ticketIds storage) - visitedIds)"
proof (induction tid storage visitedIds rule: buildResearchTree.induct)
  case (1 tid storage visitedIds)
  show ?case
  proof (cases "tid \<in> visitedIds")
    case True
    then show ?thesis by (simp add: buildResearchTree.simps[of tid] forestHeight_def)
  next
    case False
    have fin: "finite (ticketIds storage - insert tid visitedIds)"
      by (simp add: finite_ticketIds)
    have c: "card (insert tid (ticketIds storage) - visitedIds)
        = Suc (card (ticketIds storage - insert tid visitedIds))"
    proof -
      have "insert tid (ticketIds storage) - visitedIds
          = insert tid (ticketIds storage - insert tid visitedIds)"
        using False by auto
      then show ?thesis using fin by simp
    qed
    have "Suc (forestHeight (buildResearchTree (idT d) storage (insert tid visitedIds)))
        \<le> Suc (card (ticketIds storage - insert tid visitedIds))"
      if "d \<in> set (dependents tid storage)" for d
    proof -
      from that have "idT d \<in> ticketIds storage" by (rule dependents_ticketIds)
      then have "insert (idT d) (ticketIds storage) = ticketIds storage" by auto
      with 1[OF False that] show ?thesis by simp
    qed
    then have "foldr max (map (\<lambda>d. Suc (forestHeight (buildResearchTree (idT d) storage (insert tid visitedIds))))
        (dependents tid storage)) 0 \<le> Suc (card (ticketIds storage - insert tid visitedIds))"
      by (rule foldr_max_le)
    then show ?thesis
      using False by (simp add: buildResearchTree.simps[of tid] forestHeight_map_Node c)
  qed
qed

lemma card_ticketIds: "card (ticketIds storage) \<le> length (tickets storage)"
proof -
  have "ticketIds storage = set (map (idT \<circ> snd) (tickets storage))"
    by (auto simp: ticketIds_def)
  then show ?thesis by (metis card_length length_map)
qed

lemma forestNodes_map_Node:
  "set (forestNodes (map (\<lambda>d. Node (i d) (t d) (sub d)) ds))
     = (\<Union>d\<in>set ds. insert (Node (i d) (t d) (sub d)) (set (forestNodes (sub d))))"
  by (induction ds) (auto simp: forestNodes_def)

lemma buildResearchTree_open:
  "n \<in> set (forestNodes (buildResearchTree tid storage visitedIds)) \<Longrightarrow>
     \<exists>ticket\<in>snd ` set (tickets storage).
        node_id n = idT ticket \<and> node_title n = title ticket \<and> status ticket \<noteq> Closed"
proof (induction tid storage visitedIds arbitrary: n rule: buildResearchTree.induct)
  case (1 tid storage visitedIds)
  show ?case
  proof (cases "tid \<in> visitedIds")
    case True
    with 1(2) show ?thesis by (simp add: buildResearchTree.simps[of tid] forestNodes_def)
  next
    case False
    with 1(2) obtain d where d: "d \<in> set (dependents tid storage)"
      and n: "n = Node (idT d) (title d) (buildResearchTree (idT d) storage (insert tid visitedIds))
          \<or> n \<in> set (forestNodes (buildResearchTree (idT d) storage (insert tid visitedIds)))"
      by (auto simp: buildResearchTree.simps[of tid] forestNodes_map_Node)
    from n show ?thesis
    proof
      assume "n = Node (idT d) (title d) (buildResearchTree (idT d) storage (insert tid visitedIds))"
      with d show ?thesis by (auto simp: dependents_def)
    next
      assume "n \<in> set (forestNodes (buildResearchTree (idT d) storage (insert tid visitedIds)))"
      from 1(1)[OF False d this] show ?thesis .
    qed
  qed
qed

lemma lookup_of_entry:
  assumes "distinct (map fst (tickets storage))" and "(k, t) \<in> set (tickets storage)"
  shows "lookup storage k = Some t"
  using assms by (simp add: lookup_def)

text \<open>
  C5, as the code has it.  \<^verbatim>\<open>buildResearchTree\<close> terminates on every stored document, with
  or without a cycle: the function is total and satisfies its recursion equation without
  a condition.  The set of the ids on the current path bounds the depth of the recursion:
  the trees returned have a height of at most the number of tickets when the start is the
  id of a stored ticket, and of at most one more otherwise.  Every node is built from a
  stored ticket that is not closed; when the keys are the ids of their tickets, the
  ticket with the id of the node is not closed.
\<close>

theorem buildResearchTree_total:
  "buildResearchTree tid storage visitedIds =
     (if tid \<in> visitedIds then []
      else map (\<lambda>dependent.
                  Node (idT dependent) (title dependent)
                    (buildResearchTree (idT dependent) storage (insert tid visitedIds)))
             (dependents tid storage)) \<and>
   forestHeight (buildResearchTree tid storage {}) \<le> card (insert tid (ticketIds storage)) \<and>
   (tid \<in> ticketIds storage \<longrightarrow>
      forestHeight (buildResearchTree tid storage {}) \<le> length (tickets storage)) \<and>
   (\<forall>n\<in>set (forestNodes (buildResearchTree tid storage visitedIds)).
      \<exists>ticket\<in>snd ` set (tickets storage).
        node_id n = idT ticket \<and> node_title n = title ticket \<and> status ticket \<noteq> Closed) \<and>
   (keysAreIds storage \<and> distinct (map fst (tickets storage)) \<longrightarrow>
      (\<forall>n\<in>set (forestNodes (buildResearchTree tid storage visitedIds)).
         \<exists>ticket. lookup storage (node_id n) = Some ticket \<and> status ticket \<noteq> Closed))"
proof (intro conjI impI ballI)
  show "buildResearchTree tid storage visitedIds =
     (if tid \<in> visitedIds then []
      else map (\<lambda>dependent.
                  Node (idT dependent) (title dependent)
                    (buildResearchTree (idT dependent) storage (insert tid visitedIds)))
             (dependents tid storage))"
    by (rule buildResearchTree.simps)
next
  show "forestHeight (buildResearchTree tid storage {}) \<le> card (insert tid (ticketIds storage))"
    using buildResearchTree_height[of tid storage "{}"] by simp
next
  assume "tid \<in> ticketIds storage"
  then have "insert tid (ticketIds storage) = ticketIds storage" by auto
  with buildResearchTree_height[of tid storage "{}"] card_ticketIds[of storage]
  show "forestHeight (buildResearchTree tid storage {}) \<le> length (tickets storage)" by simp
next
  fix n assume "n \<in> set (forestNodes (buildResearchTree tid storage visitedIds))"
  then show "\<exists>ticket\<in>snd ` set (tickets storage).
        node_id n = idT ticket \<and> node_title n = title ticket \<and> status ticket \<noteq> Closed"
    by (rule buildResearchTree_open)
next
  fix n assume wf: "keysAreIds storage \<and> distinct (map fst (tickets storage))"
    and "n \<in> set (forestNodes (buildResearchTree tid storage visitedIds))"
  from buildResearchTree_open[OF this(2)] obtain k ticket where
    kt: "(k, ticket) \<in> set (tickets storage)" "node_id n = idT ticket" "status ticket \<noteq> Closed"
    by auto
  from wf kt(1) have "idT ticket = k" unfolding keysAreIds_def by auto
  with lookup_of_entry[OF _ kt(1)] wf kt(2,3)
  show "\<exists>ticket. lookup storage (node_id n) = Some ticket \<and> status ticket \<noteq> Closed"
    by auto
qed

theorem buildResearchTree_total_witness:
  "forestHeight (buildResearchTree ''TICKET-0001'' ex_cycle {}) \<le> 2 \<and>
   (\<exists>ticket. lookup ex_closed_chain ''TICKET-0003'' = Some ticket \<and> status ticket \<noteq> Closed)"
proof -
  have a: "''TICKET-0001'' \<in> ticketIds ex_cycle" by code_simp
  have b: "length (tickets ex_cycle) = 2" by code_simp
  from buildResearchTree_total[of "''TICKET-0001''" ex_cycle "{}", THEN conjunct2, THEN conjunct2, THEN conjunct1]
    a b
  have 1: "forestHeight (buildResearchTree ''TICKET-0001'' ex_cycle {}) \<le> 2" by simp
  have c: "keysAreIds ex_closed_chain \<and> distinct (map fst (tickets ex_closed_chain))" by code_simp
  have d: "Node ''TICKET-0003'' ''t'' []
      \<in> set (forestNodes (buildResearchTree ''TICKET-0001'' ex_closed_chain {}))"
    by code_simp
  from buildResearchTree_total[of "''TICKET-0001''" ex_closed_chain "{}", THEN conjunct2, THEN conjunct2,
      THEN conjunct2, THEN conjunct2] c d
  have "\<exists>ticket. lookup ex_closed_chain (node_id (Node ''TICKET-0003'' ''t'' [])) = Some ticket
      \<and> status ticket \<noteq> Closed"
    by blast
  with 1 show ?thesis by simp
qed

text \<open>
  With two tickets that block each other the recursion from the first ticket enters the
  second and then the first again, where the guard stops it: the tree has two levels, as
  many as there are tickets, so the path is not strictly shorter than the number of
  tickets.
\<close>

theorem research_tree_cycle_depth:
  "buildResearchTree ''TICKET-0001'' ex_cycle {}
     = [Node ''TICKET-0002'' ''t'' [Node ''TICKET-0001'' ''t'' []]] \<and>
   forestHeight (buildResearchTree ''TICKET-0001'' ex_cycle {}) = 2 \<and>
   length (tickets ex_cycle) = 2 \<and>
   \<not> forestHeight (buildResearchTree ''TICKET-0001'' ex_cycle {}) < length (tickets ex_cycle)"
  by code_simp

section \<open>Migration path search\<close>

lemma chain_snoc:
  "chain cat a b p \<Longrightarrow> m \<in> set cat \<Longrightarrow> fromVersion m = b \<Longrightarrow> chain cat a (toVersion m) (p @ [m])"
  by (induction p arbitrary: a) auto

lemma chain_closed:
  "chain cat a b c \<Longrightarrow> a \<in> S \<Longrightarrow>
     \<forall>u\<in>S. \<forall>m\<in>set cat. fromVersion m = u \<longrightarrow> toVersion m \<in> S \<Longrightarrow> b \<in> S"
  by (induction c arbitrary: a) auto

lemma chain_crossing:
  "chain cat a b c \<Longrightarrow> a \<in> S \<Longrightarrow> b \<notin> S \<Longrightarrow>
     \<exists>c1 m c2. c = c1 @ m # c2 \<and> m \<in> set cat \<and> chain cat a (fromVersion m) c1 \<and>
        fromVersion m \<in> S \<and> toVersion m \<notin> S"
proof (induction c arbitrary: a)
  case Nil
  then show ?case by simp
next
  case (Cons m ms)
  then have m: "m \<in> set cat" "fromVersion m = a" "chain cat (toVersion m) b ms" by simp_all
  show ?case
  proof (cases "toVersion m \<in> S")
    case False
    have "m # ms = [] @ m # ms \<and> m \<in> set cat \<and> chain cat a (fromVersion m) [] \<and>
        fromVersion m \<in> S \<and> toVersion m \<notin> S"
      using m False Cons.prems(2) by simp
    then show ?thesis by blast
  next
    case True
    from Cons.IH[OF m(3) True Cons.prems(3)]
    obtain c1 m' c2 where c: "ms = c1 @ m' # c2" "m' \<in> set cat"
      "chain cat (toVersion m) (fromVersion m') c1" "fromVersion m' \<in> S" "toVersion m' \<notin> S"
      by blast
    have "m # ms = (m # c1) @ m' # c2 \<and> m' \<in> set cat \<and> chain cat a (fromVersion m') (m # c1) \<and>
        fromVersion m' \<in> S \<and> toVersion m' \<notin> S"
      using c m by simp
    then show ?thesis by blast
  qed
qed

lemma enqueue_result:
  "enqueue ms path (queue, visited) = (queue', visited') \<Longrightarrow>
     \<exists>new. queue' = queue @ new \<and> visited' = visited \<union> toVersion ` set ms \<and>
       (\<forall>(v, p)\<in>set new. \<exists>m\<in>set ms. v = toVersion m \<and> p = path @ [m] \<and> v \<notin> visited) \<and>
       fst ` set new = toVersion ` set ms - visited"
proof (induction ms arbitrary: queue visited)
  case Nil
  then show ?case by simp
next
  case (Cons m ms)
  show ?case
  proof (cases "toVersion m \<in> visited")
    case True
    with Cons.prems have "enqueue ms path (queue, visited) = (queue', visited')" by simp
    from Cons.IH[OF this] obtain new where n: "queue' = queue @ new"
      "visited' = visited \<union> toVersion ` set ms"
      "\<forall>(v, p)\<in>set new. \<exists>m\<in>set ms. v = toVersion m \<and> p = path @ [m] \<and> v \<notin> visited"
      "fst ` set new = toVersion ` set ms - visited"
      by blast
    have "queue' = queue @ new \<and> visited' = visited \<union> toVersion ` set (m # ms) \<and>
       (\<forall>(v, p)\<in>set new. \<exists>m\<in>set (m # ms). v = toVersion m \<and> p = path @ [m] \<and> v \<notin> visited) \<and>
       fst ` set new = toVersion ` set (m # ms) - visited"
      using n True by auto
    then show ?thesis by blast
  next
    case False
    let ?x = "(toVersion m, path @ [m])"
    from False Cons.prems
    have "enqueue ms path (queue @ [?x], insert (toVersion m) visited) = (queue', visited')" by simp
    from Cons.IH[OF this] obtain new where n: "queue' = (queue @ [?x]) @ new"
      "visited' = insert (toVersion m) visited \<union> toVersion ` set ms"
      "\<forall>(v, p)\<in>set new. \<exists>m'\<in>set ms. v = toVersion m' \<and> p = path @ [m'] \<and> v \<notin> insert (toVersion m) visited"
      "fst ` set new = toVersion ` set ms - insert (toVersion m) visited"
      by blast
    have "queue' = queue @ (?x # new) \<and> visited' = visited \<union> toVersion ` set (m # ms) \<and>
       (\<forall>(v, p)\<in>set (?x # new). \<exists>m\<in>set (m # ms). v = toVersion m \<and> p = path @ [m] \<and> v \<notin> visited) \<and>
       fst ` set (?x # new) = toVersion ` set (m # ms) - visited"
      using n False by (auto 4 3)
    then show ?thesis by blast
  qed
qed

lemma bfs_inv_init: "bfs_inv cat fromV toV [(fromV, [])] {fromV}"
  by (simp add: bfs_inv_def doneSet_def)

lemma sorted_map_const: "(\<And>x. x \<in> set xs \<Longrightarrow> f x = (c::nat)) \<Longrightarrow> sorted (map f xs)"
  by (induction xs) auto

lemma bfs_inv_step:
  assumes inv: "bfs_inv cat fromV toV ((cur, path) # queue) visited"
    and ne: "cur \<noteq> toV"
    and enq: "enqueue (filter (\<lambda>migration. fromVersion migration = cur) cat) path (queue, visited)
                = (queue', visited')"
  shows "bfs_inv cat fromV toV queue' visited'"
proof -
  let ?ms = "filter (\<lambda>migration. fromVersion migration = cur) cat"
  let ?q = "(cur, path) # queue"
  from inv have E: "\<forall>(v, p)\<in>set ?q. chain cat fromV v p"
    and F: "fst ` set ?q \<subseteq> visited" "fromV \<in> visited"
    and A1: "sorted (map (length \<circ> snd) ?q)"
    and A2: "\<forall>(v, p)\<in>set ?q. \<forall>(v', p')\<in>set ?q. length p \<le> Suc (length p')"
    and C: "\<forall>u\<in>doneSet ?q visited. \<forall>m\<in>set cat. fromVersion m = u \<longrightarrow> toVersion m \<in> visited"
    and D: "\<forall>(v, p)\<in>set ?q. \<forall>c. chain cat fromV v c \<longrightarrow> length p \<le> length c"
    and H: "toV \<notin> doneSet ?q visited"
    unfolding bfs_inv_def by blast+
  from enqueue_result[OF enq] obtain new where q': "queue' = queue @ new"
    and v': "visited' = visited \<union> toVersion ` set ?ms"
    and new: "\<forall>(v, p)\<in>set new. \<exists>m\<in>set ?ms. v = toVersion m \<and> p = path @ [m] \<and> v \<notin> visited"
    and fnew: "fst ` set new = toVersion ` set ?ms - visited"
    by blast
  have head_min: "length path \<le> length p" if "(v, p) \<in> set ?q" for v p
    using A1 that by (auto simp: comp_def)
  have newE: "\<exists>m. m \<in> set cat \<and> fromVersion m = cur \<and> v = toVersion m \<and> p = path @ [m] \<and> v \<notin> visited"
    if "(v, p) \<in> set new" for v p
    using new that by fastforce
  have newlen: "length p = Suc (length path)" if "(v, p) \<in> set new" for v p
    using newE[OF that] by auto
  have qlen: "length path \<le> length p \<and> length p \<le> Suc (length path)" if "(v, p) \<in> set queue" for v p
  proof
    show "length path \<le> length p" using head_min[of v p] that by simp
    from that A2 show "length p \<le> Suc (length path)" by fastforce
  qed
  have done_sub: "doneSet queue' visited' \<subseteq> insert cur (doneSet ?q visited)"
    unfolding doneSet_def q' v' using fnew by auto
  have E': "\<forall>(v, p)\<in>set queue'. chain cat fromV v p"
  proof (clarify)
    fix v p assume "(v, p) \<in> set queue'"
    then consider "(v, p) \<in> set queue" | "(v, p) \<in> set new" unfolding q' by auto
    then show "chain cat fromV v p"
    proof cases
      case 1
      with E show ?thesis by auto
    next
      case 2
      from newE[OF 2] obtain m where m: "m \<in> set cat" "fromVersion m = cur" "v = toVersion m" "p = path @ [m]"
        by blast
      from E have "chain cat fromV cur path" by simp
      from chain_snoc[OF this m(1,2)] m(3,4) show ?thesis by simp
    qed
  qed
  have F': "fst ` set queue' \<subseteq> visited'" "fromV \<in> visited'"
    using F fnew unfolding q' v' by auto
  have A1': "sorted (map (length \<circ> snd) queue')"
  proof -
    have "sorted (map (length \<circ> snd) queue)" using A1 by simp
    moreover have "sorted (map (length \<circ> snd) new)"
      by (rule sorted_map_const[where c = "Suc (length path)"]) (use newlen in auto)
    moreover have "\<forall>x\<in>set (map (length \<circ> snd) queue). \<forall>y\<in>set (map (length \<circ> snd) new). x \<le> y"
      using qlen newlen by fastforce
    ultimately show ?thesis unfolding q' by (simp add: sorted_append)
  qed
  have alllen: "length path \<le> length p \<and> length p \<le> Suc (length path)" if "(v, p) \<in> set queue'" for v p
    using that qlen newlen unfolding q' by fastforce
  have A2': "\<forall>(v, p)\<in>set queue'. \<forall>(v', p')\<in>set queue'. length p \<le> Suc (length p')"
  proof (clarify)
    fix v p v' p' assume "(v, p) \<in> set queue'" "(v', p') \<in> set queue'"
    from alllen[OF this(1)] alllen[OF this(2)] show "length p \<le> Suc (length p')" by simp
  qed
  have C': "\<forall>u\<in>doneSet queue' visited'. \<forall>m\<in>set cat. fromVersion m = u \<longrightarrow> toVersion m \<in> visited'"
  proof (intro ballI impI)
    fix u m assume u: "u \<in> doneSet queue' visited'" and m: "m \<in> set cat" "fromVersion m = u"
    from u done_sub have "u = cur \<or> u \<in> doneSet ?q visited" by auto
    then show "toVersion m \<in> visited'"
    proof
      assume "u = cur"
      with m have "m \<in> set ?ms" by simp
      then show ?thesis unfolding v' by simp
    next
      assume "u \<in> doneSet ?q visited"
      with C m have "toVersion m \<in> visited" by blast
      then show ?thesis unfolding v' by simp
    qed
  qed
  have H': "toV \<notin> doneSet queue' visited'"
    using done_sub H ne by auto
  have D': "\<forall>(v, p)\<in>set queue'. \<forall>c. chain cat fromV v c \<longrightarrow> length p \<le> length c"
  proof (clarify)
    fix v p c assume vp: "(v, p) \<in> set queue'" and c: "chain cat fromV v c"
    from vp consider "(v, p) \<in> set queue" | "(v, p) \<in> set new" unfolding q' by auto
    then show "length p \<le> length c"
    proof cases
      case 1
      with D c show ?thesis by fastforce
    next
      case 2
      from newE[OF 2] have nv: "v \<notin> visited" by blast
      from chain_crossing[OF c F(2) nv]
      obtain c1 m c2 where x: "c = c1 @ m # c2" "m \<in> set cat" "chain cat fromV (fromVersion m) c1"
        "fromVersion m \<in> visited" "toVersion m \<notin> visited"
        by blast
      have "fromVersion m \<notin> doneSet ?q visited"
        using C x(2,5) by blast
      with x(4) have "fromVersion m \<in> fst ` set ?q" unfolding doneSet_def by simp
      then obtain p' where p': "(fromVersion m, p') \<in> set ?q" by force
      with D x(3) have "length p' \<le> length c1" by fastforce
      moreover from head_min[OF p'] have "length path \<le> length p'" .
      ultimately have "Suc (length path) \<le> length c" unfolding x(1) by simp
      with newlen[OF 2] show ?thesis by simp
    qed
  qed
  from E' F' A1' A2' C' D' H' show ?thesis unfolding bfs_inv_def by blast
qed

lemma bfs_correct:
  "bfs_inv cat fromV toV queue visited \<Longrightarrow>
     (chain cat fromV toV (bfs cat toV queue visited) \<and>
      (\<forall>c. chain cat fromV toV c \<longrightarrow> length (bfs cat toV queue visited) \<le> length c))
     \<or> (bfs cat toV queue visited = [] \<and> \<not> (\<exists>c. chain cat fromV toV c))"
proof (induction cat toV queue visited rule: bfs.induct)
  case (1 cat toV visited)
  then have F: "fromV \<in> visited"
    and C: "\<forall>u\<in>visited. \<forall>m\<in>set cat. fromVersion m = u \<longrightarrow> toVersion m \<in> visited"
    and H: "toV \<notin> visited"
    unfolding bfs_inv_def doneSet_def by auto
  have "\<not> (\<exists>c. chain cat fromV toV c)"
  proof
    assume "\<exists>c. chain cat fromV toV c"
    then obtain c where "chain cat fromV toV c" by blast
    from chain_closed[OF this F C] H show False by simp
  qed
  then show ?case by (simp add: bfs.simps)
next
  case (2 cat toV cur path queue visited)
  show ?case
  proof (cases "cur = toV")
    case True
    from 2(2) have "chain cat fromV cur path"
      and "\<forall>c. chain cat fromV cur c \<longrightarrow> length path \<le> length c"
      unfolding bfs_inv_def by auto
    with True show ?thesis by (simp add: bfs.simps)
  next
    case False
    let ?ms = "filter (\<lambda>migration. fromVersion migration = cur) cat"
    obtain queue' visited' where e: "enqueue ?ms path (queue, visited) = (queue', visited')"
      by (cases "enqueue ?ms path (queue, visited)")
    from bfs_inv_step[OF 2(2) False e] have inv': "bfs_inv cat fromV toV queue' visited'" .
    have r: "bfs cat toV ((cur, path) # queue) visited = bfs cat toV queue' visited'"
      using False e by (simp add: bfs.simps)
    from 2(1)[OF False refl refl e[symmetric] inv'] show ?thesis unfolding r .
  qed
qed

lemma findMigrationPath_minimal:
  assumes "fromV \<noteq> toV"
  shows "(findMigrationPath cat fromV toV = [] \<longleftrightarrow> \<not> (\<exists>c. chain cat fromV toV c)) \<and>
     (findMigrationPath cat fromV toV \<noteq> [] \<longrightarrow>
        chain cat fromV toV (findMigrationPath cat fromV toV) \<and>
        (\<forall>c. chain cat fromV toV c \<longrightarrow> length (findMigrationPath cat fromV toV) \<le> length c))"
proof -
  let ?r = "findMigrationPath cat fromV toV"
  from bfs_correct[OF bfs_inv_init, of cat fromV toV]
  have "(chain cat fromV toV ?r \<and> (\<forall>c. chain cat fromV toV c \<longrightarrow> length ?r \<le> length c))
     \<or> (?r = [] \<and> \<not> (\<exists>c. chain cat fromV toV c))"
    by (simp add: findMigrationPath_def)
  moreover have "\<not> chain cat fromV toV []" using assms by simp
  ultimately show ?thesis by metis
qed

lemma findMigrationPath_two_steps:
  assumes "fromVersion m1 = ''0.1.0''" "toVersion m1 = ''0.2.0''"
    and "fromVersion m2 = ''0.2.0''" "toVersion m2 = ''0.3.0''"
    and "cat = [m1, m2] \<or> cat = [m2, m1]"
  shows "findMigrationPath cat ''0.1.0'' ''0.3.0'' = [m1, m2]"
  using assms by (auto simp: findMigrationPath_def bfs.simps)

text \<open>
  C7.  For two distinct versions, \<^verbatim>\<open>findMigrationPath\<close> returns the empty sequence exactly
  when the catalog has no chain from the first to the second, and otherwise a chain from
  the first to the second that no chain between them is shorter than.  With a catalog of
  a step from 0.1.0 to 0.2.0 and a step from 0.2.0 to 0.3.0, in either order, the path
  from 0.1.0 to 0.3.0 is these two steps in this order, and executing it runs the first
  and then the second.
\<close>

theorem findMigrationPath_shortest:
  "(fromV \<noteq> toV \<longrightarrow>
      (findMigrationPath cat fromV toV = [] \<longleftrightarrow> \<not> (\<exists>c. chain cat fromV toV c)) \<and>
      (findMigrationPath cat fromV toV \<noteq> [] \<longrightarrow>
         chain cat fromV toV (findMigrationPath cat fromV toV) \<and>
         (\<forall>c. chain cat fromV toV c \<longrightarrow> length (findMigrationPath cat fromV toV) \<le> length c))) \<and>
   (fromVersion m1 = ''0.1.0'' \<and> toVersion m1 = ''0.2.0'' \<and>
    fromVersion m2 = ''0.2.0'' \<and> toVersion m2 = ''0.3.0'' \<and>
    (cat' = [m1, m2] \<or> cat' = [m2, m1]) \<longrightarrow>
      findMigrationPath cat' ''0.1.0'' ''0.3.0'' = [m1, m2] \<and>
      executeSteps (findMigrationPath cat' ''0.1.0'' ''0.3.0'') dataFile files =
        (case migrate m1 dataFile files of
           (Thrown, files1) \<Rightarrow> (Exited, files1)
         | (Done, files1) \<Rightarrow>
             (case migrate m2 dataFile files1 of
                (Thrown, files2) \<Rightarrow> (Exited, files2)
              | (Done, files2) \<Rightarrow> (Returned, files2))))"
proof -
  have A: "fromV \<noteq> toV \<longrightarrow>
      (findMigrationPath cat fromV toV = [] \<longleftrightarrow> \<not> (\<exists>c. chain cat fromV toV c)) \<and>
      (findMigrationPath cat fromV toV \<noteq> [] \<longrightarrow>
         chain cat fromV toV (findMigrationPath cat fromV toV) \<and>
         (\<forall>c. chain cat fromV toV c \<longrightarrow> length (findMigrationPath cat fromV toV) \<le> length c))"
    using findMigrationPath_minimal[of fromV toV cat] by blast
  have B: "fromVersion m1 = ''0.1.0'' \<and> toVersion m1 = ''0.2.0'' \<and>
    fromVersion m2 = ''0.2.0'' \<and> toVersion m2 = ''0.3.0'' \<and>
    (cat' = [m1, m2] \<or> cat' = [m2, m1]) \<longrightarrow>
      findMigrationPath cat' ''0.1.0'' ''0.3.0'' = [m1, m2] \<and>
      executeSteps (findMigrationPath cat' ''0.1.0'' ''0.3.0'') dataFile files =
        (case migrate m1 dataFile files of
           (Thrown, files1) \<Rightarrow> (Exited, files1)
         | (Done, files1) \<Rightarrow>
             (case migrate m2 dataFile files1 of
                (Thrown, files2) \<Rightarrow> (Exited, files2)
              | (Done, files2) \<Rightarrow> (Returned, files2)))"
  proof
    assume a: "fromVersion m1 = ''0.1.0'' \<and> toVersion m1 = ''0.2.0'' \<and>
      fromVersion m2 = ''0.2.0'' \<and> toVersion m2 = ''0.3.0'' \<and>
      (cat' = [m1, m2] \<or> cat' = [m2, m1])"
    then have p: "findMigrationPath cat' ''0.1.0'' ''0.3.0'' = [m1, m2]"
      using findMigrationPath_two_steps by blast
    have "executeSteps [m1, m2] dataFile files =
        (case migrate m1 dataFile files of
           (Thrown, files1) \<Rightarrow> (Exited, files1)
         | (Done, files1) \<Rightarrow>
             (case migrate m2 dataFile files1 of
                (Thrown, files2) \<Rightarrow> (Exited, files2)
              | (Done, files2) \<Rightarrow> (Returned, files2)))"
      by (simp split: prod.splits completion.splits)
    with p show "findMigrationPath cat' ''0.1.0'' ''0.3.0'' = [m1, m2] \<and>
      executeSteps (findMigrationPath cat' ''0.1.0'' ''0.3.0'') dataFile files =
        (case migrate m1 dataFile files of
           (Thrown, files1) \<Rightarrow> (Exited, files1)
         | (Done, files1) \<Rightarrow>
             (case migrate m2 dataFile files1 of
                (Thrown, files2) \<Rightarrow> (Exited, files2)
              | (Done, files2) \<Rightarrow> (Returned, files2)))"
      by simp
  qed
  from A B show ?thesis ..
qed

theorem findMigrationPath_shortest_witness:
  "findMigrationPath [ex_m23, ex_m12] ''0.1.0'' ''0.3.0'' = [ex_m12, ex_m23] \<and>
   chain [ex_m23, ex_m12] ''0.1.0'' ''0.3.0'' (findMigrationPath [ex_m23, ex_m12] ''0.1.0'' ''0.3.0'') \<and>
   findMigrationPath [ex_m23, ex_m12] ''0.3.0'' ''0.1.0'' = [] \<and>
   executeSteps (findMigrationPath [ex_m23, ex_m12] ''0.1.0'' ''0.3.0'') ''data/tickets.json'' ex_files
     = (Returned, ex_files(''data/tickets.json'' \<mapsto> ''document 0.3.0''))"
proof -
  have v: "fromVersion ex_m12 = ''0.1.0'' \<and> toVersion ex_m12 = ''0.2.0'' \<and>
    fromVersion ex_m23 = ''0.2.0'' \<and> toVersion ex_m23 = ''0.3.0'' \<and>
    ([ex_m23, ex_m12] = [ex_m12, ex_m23] \<or> [ex_m23, ex_m12] = [ex_m23, ex_m12])"
    by (simp add: ex_m12_def ex_m23_def)
  note T = findMigrationPath_shortest[of "''0.1.0''" "''0.3.0''" "[ex_m23, ex_m12]" ex_m12 ex_m23
      "[ex_m23, ex_m12]" "''data/tickets.json''" ex_files]
  from T v have p: "findMigrationPath [ex_m23, ex_m12] ''0.1.0'' ''0.3.0'' = [ex_m12, ex_m23]"
    by blast
  from T v have e: "executeSteps (findMigrationPath [ex_m23, ex_m12] ''0.1.0'' ''0.3.0'') ''data/tickets.json'' ex_files
     = (case migrate ex_m12 ''data/tickets.json'' ex_files of
           (Thrown, files1) \<Rightarrow> (Exited, files1)
         | (Done, files1) \<Rightarrow>
             (case migrate ex_m23 ''data/tickets.json'' files1 of
                (Thrown, files2) \<Rightarrow> (Exited, files2)
              | (Done, files2) \<Rightarrow> (Returned, files2)))"
    by blast
  have ne: "''0.1.0'' \<noteq> ''0.3.0''" by simp
  from T ne p have c: "chain [ex_m23, ex_m12] ''0.1.0'' ''0.3.0'' (findMigrationPath [ex_m23, ex_m12] ''0.1.0'' ''0.3.0'')"
    by simp
  have nochain: "\<not> (\<exists>c. chain [ex_m23, ex_m12] ''0.3.0'' ''0.1.0'' c)"
  proof
    assume "\<exists>c. chain [ex_m23, ex_m12] ''0.3.0'' ''0.1.0'' c"
    then obtain c where c: "chain [ex_m23, ex_m12] ''0.3.0'' ''0.1.0'' c" by blast
    then show False by (cases c) (auto simp: ex_m12_def ex_m23_def)
  qed
  have ne': "''0.3.0'' \<noteq> ''0.1.0''" by simp
  from findMigrationPath_shortest[of "''0.3.0''" "''0.1.0''" "[ex_m23, ex_m12]"] ne' nochain
  have r: "findMigrationPath [ex_m23, ex_m12] ''0.3.0'' ''0.1.0'' = []" by blast
  have x: "(case migrate ex_m12 ''data/tickets.json'' ex_files of
           (Thrown, files1) \<Rightarrow> (Exited, files1)
         | (Done, files1) \<Rightarrow>
             (case migrate ex_m23 ''data/tickets.json'' files1 of
                (Thrown, files2) \<Rightarrow> (Exited, files2)
              | (Done, files2) \<Rightarrow> (Returned, files2)))
      = (Returned, ex_files(''data/tickets.json'' \<mapsto> ''document 0.3.0''))"
    by (simp add: ex_m12_def ex_m23_def)
  from p c r e x show ?thesis by simp
qed

section \<open>Acyclic documents\<close>

text \<open>
  Storing a ticket under a key makes the stored graph the graph that the cycle check of
  that key and that \<^verbatim>\<open>blockedBy\<close> is specified on.
\<close>

lemma stored_edges_putTicket:
  "stored_edges (putTicket i t storage) = dep_edges i (blockedBy t) storage"
  by (auto simp: stored_edges_def dep_edges_def deps_of_def lookup_def putTicket_def update_conv'
           split: option.splits if_splits)

lemma stored_edges_generateId: "stored_edges (snd (generateId storage)) = stored_edges storage"
  by (simp add: stored_edges_def generateId_def lookup_def)

lemma lookup_generateId: "lookup (snd (generateId storage)) k = lookup storage k"
  by (simp add: generateId_def lookup_def)

lemma dep_edges_generateId: "dep_edges i bb (snd (generateId storage)) = dep_edges i bb storage"
  by (simp add: dep_edges_def deps_of_def lookup_generateId cong: if_cong)

lemma dep_edges_others:
  "(a, b) \<in> dep_edges i bb storage \<Longrightarrow> a \<noteq> i \<Longrightarrow> (a, b) \<in> stored_edges storage"
  by (cases "lookup storage a") (auto simp: dep_edges_def deps_of_def stored_edges_def)

text \<open>A path has no edge that starts at \<open>i\<close>, or it leads through \<open>i\<close>.\<close>

lemma trancl_through:
  "(x, y) \<in> E\<^sup>+ \<Longrightarrow> (x, y) \<in> {(a, b). (a, b) \<in> E \<and> a \<noteq> i}\<^sup>+ \<or> ((x, i) \<in> E\<^sup>* \<and> (i, y) \<in> E\<^sup>+)"
proof (induction rule: trancl_induct)
  case (base y)
  then show ?case by (cases "x = i") auto
next
  case (step y z)
  show ?case
  proof (cases "y = i")
    case True
    with step show ?thesis by (auto intro: trancl_into_rtrancl)
  next
    case False
    with step(2) have yz: "(y, z) \<in> {(a, b). (a, b) \<in> E \<and> a \<noteq> i}" by simp
    from step(3) show ?thesis
    proof
      assume "(x, y) \<in> {(a, b). (a, b) \<in> E \<and> a \<noteq> i}\<^sup>+"
      with yz show ?thesis by (meson trancl.trancl_into_trancl)
    next
      assume "(x, i) \<in> E\<^sup>* \<and> (i, y) \<in> E\<^sup>+"
      with step(2) show ?thesis by (meson trancl.trancl_into_trancl)
    qed
  qed
qed

text \<open>
  When the stored graph has no cycle and the check of one candidate passes, the graph
  with the candidate's edges has no cycle.  So the operations that change the edges of
  one ticket at a time keep the stored graph acyclic: \<^verbatim>\<open>createTicket\<close>, \<^verbatim>\<open>createTickets\<close>,
  which checks every new ticket against the storage that holds the ones before it,
  \<^verbatim>\<open>deleteTicket\<close>, which only removes edges, and \<^verbatim>\<open>updateTickets\<close> with one update.
\<close>

lemma candidate_acyclic:
  assumes a: "acyclic (stored_edges storage)"
    and c: "checkCircularDependency i bb storage \<noteq> Inl CircularDependency"
  shows "acyclic (dep_edges i bb storage)"
proof (rule acyclicI, rule allI, rule notI)
  fix x assume x: "(x, x) \<in> (dep_edges i bb storage)\<^sup>+"
  let ?E = "dep_edges i bb storage"
  from c have nc: "\<not> cycle_reachable ?E i"
    by (simp add: checkCircularDependency_def hasCycle_correct split: if_splits)
  from trancl_through[OF x, of i] show False
  proof
    assume "(x, x) \<in> {(a, b). (a, b) \<in> ?E \<and> a \<noteq> i}\<^sup>+"
    moreover have "{(a, b). (a, b) \<in> ?E \<and> a \<noteq> i} \<subseteq> stored_edges storage"
      using dep_edges_others by auto
    ultimately have "(x, x) \<in> (stored_edges storage)\<^sup>+"
      by (meson trancl_mono)
    with a show False by (simp add: acyclic_def)
  next
    assume "(x, i) \<in> ?E\<^sup>* \<and> (i, x) \<in> ?E\<^sup>+"
    then have "(i, i) \<in> ?E\<^sup>+" by (meson trancl_rtrancl_trancl)
    with nc show False unfolding cycle_reachable_def by blast
  qed
qed

lemma createTicket_acyclic:
  assumes "createTicket now ttl descr projs bb disk = (Inr t, d)" and "acyclic (stored_edges disk)"
  shows "acyclic (stored_edges d)"
proof -
  let ?i = "fst (generateId disk)" and ?s = "snd (generateId disk)"
  let ?t = "\<lparr>idT = ?i, title = ttl, description = descr, projects = projs,
                         blockedBy = bb, createdAt = now, updatedAt = now, status = Open\<rparr>"
  from assms(1) have c: "checkCircularDependency ?i bb ?s \<noteq> Inl CircularDependency"
    and d: "d = putTicket ?i ?t ?s"
    by (auto simp: createTicket_def readData_def writeData_def Let_def split_beta
             split: sum.splits)
  from assms(2) have "acyclic (stored_edges ?s)" by (simp add: stored_edges_generateId)
  from candidate_acyclic[OF this c] show ?thesis
    unfolding d by (simp add: stored_edges_putTicket)
qed

lemma createLoop_acyclic:
  "createLoop now items storage created = Inr (storage', created') \<Longrightarrow>
     acyclic (stored_edges storage) \<Longrightarrow> acyclic (stored_edges storage')"
proof (induction items arbitrary: storage created)
  case Nil
  then show ?case by simp
next
  case (Cons item items)
  let ?i = "fst (generateId storage)" and ?s = "snd (generateId storage)"
  let ?bb = "blockedByOrEmpty item"
  let ?t = "\<lparr>idT = ?i, title = titleC item, description = descriptionC item,
                    projects = projectsC item, blockedBy = ?bb,
                    createdAt = now, updatedAt = now, status = Open\<rparr>"
  from Cons.prems(1) have c: "checkCircularDependency ?i ?bb ?s \<noteq> Inl CircularDependency"
    and r: "createLoop now items (putTicket ?i ?t ?s) (created @ [?t]) = Inr (storage', created')"
    by (auto simp: Let_def split_beta split: sum.splits)
  from Cons.prems(2) have "acyclic (stored_edges ?s)" by (simp add: stored_edges_generateId)
  from candidate_acyclic[OF this c] have "acyclic (stored_edges (putTicket ?i ?t ?s))"
    by (simp add: stored_edges_putTicket)
  from Cons.IH[OF r this] show ?case .
qed

lemma createTickets_acyclic:
  assumes "createTickets now items disk = (Inr ts, d)" and "acyclic (stored_edges disk)"
  shows "acyclic (stored_edges d)"
proof -
  from assms(1) have "createLoop now items disk [] = Inr (d, ts)"
    by (auto simp: createTickets_def readData_def writeData_def split: sum.splits prod.splits)
  from createLoop_acyclic[OF this assms(2)] show ?thesis .
qed

lemma deleteTicket_acyclic:
  assumes "deleteTicket tid disk = (Inr b, d)" and "acyclic (stored_edges disk)"
  shows "acyclic (stored_edges d)"
proof -
  from assms(1) have d: "d = disk\<lparr>tickets := AList.delete tid
      (map (\<lambda>(k, ticket). (k, stripDependency tid ticket)) (tickets disk))\<rparr>"
    by (auto simp: deleteTicket_def readData_def writeData_def Let_def split: if_splits)
  have "stored_edges d \<subseteq> stored_edges disk"
    unfolding d stored_edges_def
    by (auto simp: lookup_delete stripDependency_def split: if_splits)
  with assms(2) show ?thesis by (rule acyclic_subset)
qed

lemma asTickets_update:
  "asTickets xs = Some ts \<Longrightarrow> asTicket p = Some m \<Longrightarrow>
     asTickets (AList.update k p xs) = Some (AList.update k m ts)"
  by (induction xs arbitrary: ts) (auto split: option.splits)

lemma asTickets_update_new:
  "asTickets (AList.update k p xs) = Some ys \<Longrightarrow> map_of xs k = None \<Longrightarrow> asTicket p \<noteq> None"
  by (induction xs arbitrary: ys) (auto split: option.splits if_splits)

lemma asTicket_blockedBy: "asTicket p = Some m \<Longrightarrow> blockedByP p = Some (blockedBy m)"
  by (auto simp: asTicket_def split: option.splits)

lemma updateTickets_single_acyclic:
  assumes "updateTickets now [u] disk = (Inr ts, Storage d)" and "acyclic (stored_edges disk)"
  shows "acyclic (stored_edges d)"
proof -
  let ?k = "ticketId u"
  let ?p = "mergeUpdate now (spreadAt (ticketsObject disk) ?k) (updateFields u)"
  from updateTickets_validated[OF assms(1)]
  have v: "updateValidate [u] disk = Inr ()" by simp
  from updateTickets_success[OF assms(1), of "assignAt (ticketsObject disk) ?k ?p" "[?p]"]
    updateTickets_validated[OF assms(1)]
  have w: "writeObjects disk (assignAt (ticketsObject disk) ?k ?p) = Storage d"
    by (simp add: Let_def)
  show ?thesis
  proof (cases "lookup disk ?k = None \<and> ?k = ''__proto__''")
    case True
    then have n: "lookup disk ?k = None" and p: "?k = ''__proto__''" by blast+
    from n have "map_of (ownTickets (ticketsObject disk)) ?k = None"
      by (simp add: ticketsObject_def lookup_def map_of_spread)
    with p have "assignAt (ticketsObject disk) ?k ?p = (ticketsObject disk)\<lparr>protoTicket := Some ?p\<rparr>"
      unfolding assignAt_def by (simp only: simp_thms if_True)
    with w have "d = disk"
      by (simp add: writeObjects_def ticketsObject_def asTickets_spread)
    with assms(2) show ?thesis by simp
  next
    case False
    then have o: "ownTickets (assignAt (ticketsObject disk) ?k ?p)
        = AList.update ?k ?p (map (\<lambda>(k, ticket). (k, spreadTicket ticket)) (tickets disk))"
      by (auto simp: assignAt_def ticketsObject_def lookup_def map_of_spread)
    from w o obtain ys where ys: "asTickets (AList.update ?k ?p
        (map (\<lambda>(k, ticket). (k, spreadTicket ticket)) (tickets disk))) = Some ys"
      and d: "d = disk\<lparr>tickets := ys\<rparr>"
      by (auto simp: writeObjects_def split: option.splits)
    have "asTicket ?p \<noteq> None"
    proof (cases "lookup disk ?k")
      case None
      then have "map_of (map (\<lambda>(k, ticket). (k, spreadTicket ticket)) (tickets disk)) ?k = None"
        by (simp add: lookup_def map_of_spread)
      from asTickets_update_new[OF ys this] show ?thesis .
    next
      case (Some t)
      then show ?thesis
        by (simp add: spreadAt_stored mergeUpdate_spreadTicket asTicket_spreadTicket)
    qed
    then obtain m where m: "asTicket ?p = Some m" by blast
    from asTickets_update[OF asTickets_spread m, of ?k "tickets disk"] ys d
    have d': "d = putTicket ?k m disk" by (simp add: putTicket_def)
    from asTicket_blockedBy[OF m]
    have bp: "blockedByP ?p = Some (blockedBy m)" .
    show ?thesis
    proof (cases "blockedByU u")
      case None
      with bp have "blockedByP (spreadAt (ticketsObject disk) ?k) = Some (blockedBy m)"
        by (simp add: mergeUpdate_def updateFields_def orElse_def)
      then obtain t where t: "lookup disk ?k = Some t" "blockedBy t = blockedBy m"
        by (cases "lookup disk ?k")
           (simp_all add: spreadAt_absent spreadAt_stored emptyObject_def spreadTicket_def)
      then have "stored_edges d = stored_edges disk"
        unfolding d' stored_edges_def
        by (auto simp: lookup_putTicket split: if_splits)
      with assms(2) show ?thesis by simp
    next
      case (Some bb)
      with v have c: "checkCircularDependency ?k bb disk \<noteq> Inl CircularDependency"
        by (auto split: sum.splits)
      from Some bp have "blockedBy m = bb"
        by (simp add: mergeUpdate_def updateFields_def orElse_def)
      with candidate_acyclic[OF assms(2) c] show ?thesis
        unfolding d' by (simp add: stored_edges_putTicket)
    qed
  qed
qed

text \<open>
  C1 fails on \<^verbatim>\<open>updateTickets\<close> with more than one update.  The second phase checks every
  update against the storage as it was read, without the other updates of the batch.  On
  two tickets without dependencies, the batch that makes the first blocked by the second
  and the second blocked by the first passes every check, and the document that is
  written has a cycle.
\<close>

theorem updateTickets_joint_cycle:
  "acyclic (stored_edges ex_pair) \<and>
   updateTickets ex_now ex_updates_joint ex_pair
     = (Inr (map spreadTicket (map snd (tickets ex_pair_updated))), Storage ex_pair_updated) \<and>
   (''TICKET-0001'', ''TICKET-0001'') \<in> (stored_edges ex_pair_updated)\<^sup>+ \<and>
   \<not> acyclic (stored_edges ex_pair_updated)"
proof -
  have "\<forall>(k, t)\<in>set (tickets ex_pair). blockedBy t = []" by code_simp
  then have "stored_edges ex_pair = {}"
    by (auto simp: stored_edges_def lookup_def dest!: map_of_SomeD)
  then have 1: "acyclic (stored_edges ex_pair)" by (simp add: acyclic_def)
  have 2: "updateTickets ex_now ex_updates_joint ex_pair
     = (Inr (map spreadTicket (map snd (tickets ex_pair_updated))), Storage ex_pair_updated)"
    by code_simp
  have "(''TICKET-0001'', ''TICKET-0002'') \<in> stored_edges ex_pair_updated"
    and "(''TICKET-0002'', ''TICKET-0001'') \<in> stored_edges ex_pair_updated"
    by (simp_all add: stored_edges_def lookup_def ex_pair_updated_def ex_ticket_def)
  then have 3: "(''TICKET-0001'', ''TICKET-0001'') \<in> (stored_edges ex_pair_updated)\<^sup>+"
    by (meson trancl.intros)
  then have 4: "\<not> acyclic (stored_edges ex_pair_updated)"
    by (auto simp: acyclic_def)
  from 1 2 3 4 show ?thesis by simp
qed

end
